theory Spec2Isabelle
  imports Main "HOL-Library.Word"
begin

unbundle bit_operations_syntax

section \<open>Common types: bytes, status values, files of the environment\<close>

type_synonym byte = "8 word"
type_synonym bytes = "byte list"
type_synonym u32 = "32 word"
type_synonym u64 = "64 word"

text \<open>
  A \<open>Status\<close> is OK or an error kind with the two message parts the factory functions
  take (\<open>Status::IOError(msg, msg2)\<close>; a call with one argument leaves the second empty).
\<close>

datatype Status =
    OK
  | NotFound string string
  | Corruption string string
  | IOError string string
  | Disconnected string string

fun ok :: "Status \<Rightarrow> bool" where
  "ok OK = True"
| "ok _ = False"

text \<open>
  A \<open>WritableFile\<close> belongs to the environment. The code only sees the status each call
  returns, so a file is the history of the calls made on it together with the rule
  (\<open>behaviour\<close>) by which the environment answers the next call given that history.
\<close>

datatype wcall = Append bytes | Flush | Sync | Close

record WritableFile =
  behaviour :: "wcall list \<Rightarrow> wcall \<Rightarrow> Status"
  history :: "wcall list"

definition wf_call :: "WritableFile \<Rightarrow> wcall \<Rightarrow> Status \<times> WritableFile" where
  "wf_call f c = (behaviour f (history f) c, f\<lparr>history := history f @ [c]\<rparr>)"

text \<open>The bytes a file holds: the data of its \<open>Append\<close> calls, in order.\<close>

fun appended :: "wcall list \<Rightarrow> bytes" where
  "appended [] = []"
| "appended (Append d # cs) = d @ appended cs"
| "appended (_ # cs) = appended cs"

text \<open>A file on which every call succeeds.\<close>

definition good_file :: WritableFile where
  "good_file = \<lparr>behaviour = (\<lambda>h c. OK), history = []\<rparr>"

section \<open>LogSink (log sink header: \<open>Ltell\<close>, \<open>Lwrite\<close>, \<open>Lsync\<close>)\<close>

text \<open>
  The fields of \<open>LogSink\<close> that \<open>Lwrite\<close>, \<open>Lsync\<close> and \<open>Ltell\<close> read or
  write. A member \<open>x_\<close> of the class is the field \<open>l_x\<close> here (a name cannot end in an
  underscore). \<open>l_file\<close> is a pointer that is NULL once the log is closed (\<open>None\<close>
  here); \<open>l_off\<close> is a \<open>uint64_t\<close>.
\<close>

record LogSink =
  l_file :: "WritableFile option"
  l_filename :: string
  l_off :: u64

definition Ltell :: "LogSink \<Rightarrow> u64" where
  "Ltell s = l_off s"

definition Lwrite :: "LogSink \<Rightarrow> bytes \<Rightarrow> Status \<times> LogSink" where
  "Lwrite s data =
     (case l_file s of
        None \<Rightarrow> (Disconnected ''Log already closed'' (l_filename s), s)
      | Some f \<Rightarrow>
          (let (result, f1) = wf_call f (Append data) in
           if ok result then
             (let (result2, f2) = wf_call f1 Flush in
              if ok result2
              then (result2, s\<lparr>l_file := Some f2, l_off := l_off s + of_nat (length data)\<rparr>)
              else (result2, s\<lparr>l_file := Some f2\<rparr>))
           else (result, s\<lparr>l_file := Some f1\<rparr>)))"

definition Lsync :: "LogSink \<Rightarrow> Status \<times> LogSink" where
  "Lsync s =
     (case l_file s of
        None \<Rightarrow> (Disconnected ''Log already closed'' (l_filename s), s)
      | Some f \<Rightarrow> (let (result, f1) = wf_call f Sync in (result, s\<lparr>l_file := Some f1\<rparr>)))"

text \<open>A caller's sequence of writes and syncs on one sink, with the status of each.\<close>

datatype lcall = LWrite bytes | LSync

fun Lcall :: "LogSink \<Rightarrow> lcall \<Rightarrow> Status \<times> LogSink" where
  "Lcall s (LWrite d) = Lwrite s d"
| "Lcall s LSync = Lsync s"

fun Lcalls :: "LogSink \<Rightarrow> lcall list \<Rightarrow> Status list \<times> LogSink" where
  "Lcalls s [] = ([], s)"
| "Lcalls s (c # cs) =
     (let (r, s1) = Lcall s c; (rs, s2) = Lcalls s1 cs in (r # rs, s2))"

section \<open>Encodings used by the writer and the reader\<close>

text \<open>
  Modelled from the spec: \<open>PutFixed64\<close> and \<open>DecodeFixed64\<close> (declared outside the given
  sources) write and read a 64-bit integer as eight bytes, least significant byte first.
  \<open>DecodeFixed64 p\<close> reads the eight bytes at the start of \<open>p\<close>.
\<close>

definition PutFixed64 :: "u64 \<Rightarrow> bytes" where
  "PutFixed64 v = map (\<lambda>i. ucast (drop_bit (8 * i) v)) [0..<8]"

definition DecodeFixed64 :: "bytes \<Rightarrow> u64" where
  "DecodeFixed64 p = foldr (\<lambda>b acc. ucast b OR push_bit 8 acc) (take 8 p) 0"

text \<open>
  Modelled from the spec: the footer stores each block handle as two varints (offset, then
  size): seven bits per byte, least significant group first, the top bit set on every byte
  but the last. Decoding gives up on an input that ends early or runs past ten bytes.
\<close>

function varint :: "nat \<Rightarrow> bytes" where
  "varint n = (if n < 128 then [of_nat n] else of_nat (n mod 128 + 128) # varint (n div 128))"
  by pat_completeness auto
termination
  by (relation "measure id") auto

declare varint.simps [simp del]

definition PutVarint64 :: "u64 \<Rightarrow> bytes" where
  "PutVarint64 v = varint (unat v)"

fun getvar :: "nat \<Rightarrow> bytes \<Rightarrow> (nat \<times> bytes) option" where
  "getvar shift [] = None"
| "getvar shift (b # p) =
     (if 63 < shift then None
      else if 128 \<le> unat b then
        (case getvar (shift + 7) p of
           None \<Rightarrow> None
         | Some (v, rest) \<Rightarrow> Some ((unat b - 128) * 2 ^ shift + v, rest))
      else Some (unat b * 2 ^ shift, p))"

definition GetVarint64 :: "bytes \<Rightarrow> (u64 \<times> bytes) option" where
  "GetVarint64 p = (case getvar 0 p of None \<Rightarrow> None | Some (v, rest) \<Rightarrow> Some (of_nat v, rest))"

record BlockHandle =
  h_offset :: u64
  h_size :: u64

definition kMaxEncodedLength :: nat where
  "kMaxEncodedLength = 10 + 10"

definition EncodeTo :: "BlockHandle \<Rightarrow> bytes" where
  "EncodeTo h = PutVarint64 (h_offset h) @ PutVarint64 (h_size h)"

text \<open>\<open>DecodeFrom\<close> consumes a handle from the front of the input, or reports corruption.\<close>

definition DecodeFrom :: "bytes \<Rightarrow> Status + BlockHandle \<times> bytes" where
  "DecodeFrom input =
     (case GetVarint64 input of
        None \<Rightarrow> Inl (Corruption ''bad block handle'' '''')
      | Some (offset, r1) \<Rightarrow>
          (case GetVarint64 r1 of
             None \<Rightarrow> Inl (Corruption ''bad block handle'' '''')
           | Some (sz, r2) \<Rightarrow> Inr (\<lparr>h_offset = offset, h_size = sz\<rparr>, r2)))"

section \<open>Block and filter formats\<close>

text \<open>
  The block buffer, the block iterator and the bloom filter live outside the given
  sources. The writer and the reader only call them, so they are parameters here:
  \<^item> \<open>block_finish es\<close>: the bytes \<open>BlockBuf::Finish(kNoCompression)\<close> returns for a buffer
    holding the records \<open>es\<close> (in insertion order; the buffers use the unordered format);
  \<^item> \<open>block_parse b\<close>: the records an iterator over \<open>Block(b)\<close> yields from
    \<open>SeekToFirst\<close> by \<open>Next\<close>;
  \<^item> \<open>bloom_finish bits n ks\<close>: the bytes of a \<open>BloomBuilder\<close> with \<open>bits\<close> bits per key
    after \<open>Reset(n)\<close>, \<open>AddKey\<close> of each key of \<open>ks\<close>, and \<open>Finish\<close>;
  \<^item> \<open>bloom_may_match k f\<close>: \<open>BloomKeyMayMatch(k, f)\<close>;
  \<^item> \<open>buf_full threshold es\<close>: whether a buffer holding \<open>es\<close> has reached the capacity
    target \<open>threshold\<close>;
  \<^item> \<open>string_max_size\<close>: \<open>std::string::max_size()\<close> of the platform, the most bytes a
    string can be resized to.
\<close>

record Formats =
  block_finish :: "(bytes \<times> bytes) list \<Rightarrow> bytes"
  block_parse :: "bytes \<Rightarrow> (bytes \<times> bytes) list"
  bloom_finish :: "nat \<Rightarrow> nat \<Rightarrow> bytes list \<Rightarrow> bytes"
  bloom_may_match :: "bytes \<Rightarrow> bytes \<Rightarrow> bool"
  buf_full :: "nat \<Rightarrow> (bytes \<times> bytes) list \<Rightarrow> bool"
  string_max_size :: nat

text \<open>
  Modelled from the spec: seeking with a null comparator is a linear search through the
  block for an entry with the key; the iterator is valid on the first such entry.
\<close>

fun block_seek :: "(bytes \<times> bytes) list \<Rightarrow> bytes \<Rightarrow> bytes option" where
  "block_seek [] k = None"
| "block_seek ((k', v) # es) k = (if k' = k then Some v else block_seek es k)"

section \<open>BufferedBlockWriter (pdb.cc)\<close>

text \<open>The options the writer reads. A pointer option is a flag: set when not NULL.\<close>

record DirOptions =
  bf_bits_per_key :: nat
  compaction_pool :: bool
  allow_env_threads :: bool

text \<open>A block buffer is the records it holds, in insertion order.\<close>

type_synonym BlockBuf = "(bytes \<times> bytes) list"

text \<open>
  The members of the base class \<open>DoubleBuffering\<close> and of \<open>BufferedBlockWriter\<close>. A
  member \<open>x_\<close> is the field \<open>w_x\<close>. A pointer to a block buffer is its index in \<open>w_bbs\<close>.
  \<open>w_num_compac_scheduled\<close>, \<open>w_bg_status\<close>, \<open>w_finished\<close> and \<open>w_finish_status\<close> are the
  spec's \<open>next_ticket\<close>, \<open>bg_status\<close> and \<open>finished\<close> state; \<open>w_num_compac_completed\<close> is its
  \<open>last_committed_ticket\<close>.
\<close>

record DoubleBuffering =
  w_num_compac_scheduled :: u32
  w_num_compac_completed :: u32
  w_num_bg_compactions :: nat
  w_bg_status :: Status
  w_finished :: bool
  w_finish_status :: Status
  w_bufs :: "nat list"
  w_membuf :: nat

record BufferedBlockWriter = DoubleBuffering +
  w_options :: DirOptions
  w_dst :: WritableFile
  w_buf_threshold :: nat
  w_buf_reserv :: nat
  w_offset :: u64
  w_bbs :: "BlockBuf list"
  w_n :: nat
  w_bloomfilter :: bytes
  w_indexes :: bytes
  w_bloomfilter_handle :: BlockHandle
  w_index_handle :: BlockHandle

text \<open>
  The constructor's loop: for \<open>i\<close> from 0 below \<open>n_\<close>, allocate buffer \<open>i\<close> and, unless
  \<open>i\<close> is 0, push it on the free list \<open>bufs_\<close>. The reserve \<open>buf_reserv_\<close> is the
  \<open>size_t\<close> sum \<open>8 + buf_size\<close>, which wraps at \<open>2^64\<close>.
\<close>

definition alloc_step :: "nat \<Rightarrow> BlockBuf list \<times> nat list \<Rightarrow> BlockBuf list \<times> nat list" where
  "alloc_step i acc = (fst acc @ [[]], if i \<noteq> 0 then snd acc @ [i] else snd acc)"

definition alloc_bufs :: "nat \<Rightarrow> BlockBuf list \<times> nat list" where
  "alloc_bufs n = fold alloc_step [0..<n] ([], [])"

definition new_BufferedBlockWriter ::
  "DirOptions \<Rightarrow> WritableFile \<Rightarrow> nat \<Rightarrow> nat \<Rightarrow> BufferedBlockWriter" where
  "new_BufferedBlockWriter options dst buf_size n =
     (let n1 = (if n < 2 then 2 else n);
          (bbs, bufs) = alloc_bufs n1
      in \<lparr>w_num_compac_scheduled = 0, w_num_compac_completed = 0, w_num_bg_compactions = 0,
          w_bg_status = OK, w_finished = False, w_finish_status = OK,
          w_bufs = bufs, w_membuf = 0,
          w_options = options, w_dst = dst, w_buf_threshold = buf_size,
          w_buf_reserv = (8 + buf_size) mod 2 ^ 64, w_offset = 0, w_bbs = bbs, w_n = n1,
          w_bloomfilter = [], w_indexes = [],
          w_bloomfilter_handle = \<lparr>h_offset = 0, h_size = 0\<rparr>,
          w_index_handle = \<lparr>h_offset = 0, h_size = 0\<rparr>\<rparr>)"

definition dst_call :: "BufferedBlockWriter \<Rightarrow> wcall \<Rightarrow> Status \<times> BufferedBlockWriter" where
  "dst_call w c = (let (st, f) = wf_call (w_dst w) c in (st, w\<lparr>w_dst := f\<rparr>))"

text \<open>
  \<open>Compact\<close>, run by one thread with no other thread active. The result is \<open>None\<close> when
  the call does not return: the assertion \<open>num_compac_completed_ < compac_seq\<close> fails, or
  the loop waits for \<open>compac_seq = num_compac_completed_ + 1\<close>, which no one else will
  make true.
\<close>

definition Compact ::
  "Formats \<Rightarrow> BufferedBlockWriter \<Rightarrow> u32 \<Rightarrow> nat \<Rightarrow> (Status \<times> BufferedBlockWriter) option" where
  "Compact fm w compac_seq immbuf =
     (let bb = w_bbs w ! immbuf in
      if bb = [] \<and> compac_seq = w_num_compac_completed w + 1 then Some (OK, w)
      else
        (let block_contents = (if bb \<noteq> [] then block_finish fm bb else []);
             filter_contents =
               (if bb \<noteq> [] \<and> bf_bits_per_key (w_options w) \<noteq> 0
                then bloom_finish fm (bf_bits_per_key (w_options w)) (length bb)
                       (map fst (block_parse fm block_contents))
                else [])
         in if \<not> w_num_compac_completed w < compac_seq then None
            else if compac_seq \<noteq> w_num_compac_completed w + 1 then None
            else
              (let w1 = w\<lparr>w_indexes := w_indexes w @ PutFixed64 (of_nat (length (w_bloomfilter w)))\<rparr>;
                   w2 = (if filter_contents \<noteq> []
                         then w1\<lparr>w_bloomfilter := w_bloomfilter w1 @ filter_contents\<rparr> else w1);
                   w3 = w2\<lparr>w_indexes := w_indexes w2 @ PutFixed64 (w_offset w2)\<rparr>;
                   (status, w4) =
                     (if block_contents \<noteq> [] then dst_call w3 (Append block_contents)
                      else (OK, w3))
               in if ok status then
                    (let w5 = w4\<lparr>w_offset := w_offset w4 + of_nat (length block_contents)\<rparr>
                     in Some (dst_call w5 Flush))
                  else Some (status, w4))))"

definition DumpIndexesAndFilters :: "BufferedBlockWriter \<Rightarrow> Status \<times> BufferedBlockWriter" where
  "DumpIndexesAndFilters w =
     (let w1 = w\<lparr>w_indexes := w_indexes w @ PutFixed64 (of_nat (length (w_bloomfilter w)))\<rparr>;
          w2 = w1\<lparr>w_indexes := w_indexes w1 @ PutFixed64 (w_offset w1)\<rparr>;
          w3 = w2\<lparr>w_bloomfilter_handle :=
                    \<lparr>h_offset = w_offset w2, h_size = of_nat (length (w_bloomfilter w2))\<rparr>\<rparr>;
          (status, w4) =
            (if w_bloomfilter w3 \<noteq> [] then dst_call w3 (Append (w_bloomfilter w3)) else (OK, w3));
          w5 = (if ok status
                then w4\<lparr>w_offset := w_offset w4 + of_nat (length (w_bloomfilter w4))\<rparr> else w4)
      in if ok status then
           (let w6 = w5\<lparr>w_index_handle :=
                         \<lparr>h_offset = w_offset w5, h_size = of_nat (length (w_indexes w5))\<rparr>\<rparr>;
                (status2, w7) =
                  (if w_indexes w6 \<noteq> [] then dst_call w6 (Append (w_indexes w6)) else (OK, w6))
            in if ok status2
               then (status2, w7\<lparr>w_offset := w_offset w7 + of_nat (length (w_indexes w7))\<rparr>)
               else (status2, w7))
         else (status, w5))"

text \<open>\<open>footer.resize(n)\<close>: cut to \<open>n\<close> bytes or fill with zero bytes up to \<open>n\<close>.\<close>

definition resize :: "nat \<Rightarrow> bytes \<Rightarrow> bytes" where
  "resize n s = take n s @ replicate (n - length s) 0"

text \<open>
  \<open>Close\<close>. \<open>None\<close>: the assertion that no compaction is outstanding fails. The status
  \<open>dst_->Close()\<close> returns is dropped.
\<close>

definition Close_writer :: "BufferedBlockWriter \<Rightarrow> (Status \<times> BufferedBlockWriter) option" where
  "Close_writer w =
     (if w_num_bg_compactions w \<noteq> 0 then None
      else
        (let (status, w1) = DumpIndexesAndFilters w;
             (status2, w2) =
               (if ok status then
                  dst_call w1 (Append (resize (2 * kMaxEncodedLength)
                     (EncodeTo (w_bloomfilter_handle w1) @ EncodeTo (w_index_handle w1))))
                else (status, w1))
         in if ok status2 then
              (let (status3, w3) = dst_call w2 Sync;
                   (dropped, w4) = dst_call w3 Close
               in Some (status3, w4))
            else Some (status2, w2)))"

definition SyncBackend :: "BufferedBlockWriter \<Rightarrow> bool \<Rightarrow> (Status \<times> BufferedBlockWriter) option" where
  "SyncBackend w close =
     (if w_num_bg_compactions w \<noteq> 0 then None
      else if \<not> close then Some (dst_call w Sync)
      else Close_writer w)"

text \<open>
  Modelled from the spec: \<open>DoCompaction\<close> (its body is in the base class, outside the
  given sources) runs \<open>Compact\<close>, latches the first error in the sticky background
  status, records the ticket as committed, clears the buffer and returns it to the free
  set, and counts one compaction less outstanding.
\<close>

definition DoCompaction ::
  "Formats \<Rightarrow> BufferedBlockWriter \<Rightarrow> u32 \<Rightarrow> nat \<Rightarrow> BufferedBlockWriter option" where
  "DoCompaction fm w compac_seq immbuf =
     (case Compact fm w compac_seq immbuf of
        None \<Rightarrow> None
      | Some (status, w1) \<Rightarrow>
          Some (w1\<lparr>w_bg_status :=
                      (if \<not> ok status \<and> ok (w_bg_status w1) then status else w_bg_status w1),
                    w_num_compac_completed := compac_seq,
                    w_bbs := (w_bbs w1)[immbuf := []],
                    w_bufs := w_bufs w1 @ [immbuf],
                    w_num_bg_compactions := w_num_bg_compactions w1 - 1\<rparr>))"

text \<open>
  \<open>ScheduleCompaction\<close>. With a compaction pool or with the environment's threads the
  work goes to another thread; this model follows one thread, so the result is \<open>None\<close>
  there, as it is when the assertion fails. Otherwise (the default options) the
  compaction runs at once on the calling thread.
\<close>

definition ScheduleCompaction ::
  "Formats \<Rightarrow> BufferedBlockWriter \<Rightarrow> u32 \<Rightarrow> nat \<Rightarrow> BufferedBlockWriter option" where
  "ScheduleCompaction fm w compac_seq immbuf =
     (if w_num_bg_compactions w = 0 then None
      else if compaction_pool (w_options w) then None
      else if allow_env_threads (w_options w) then None
      else DoCompaction fm w compac_seq immbuf)"

text \<open>
  Modelled from the spec: \<open>RotateBuffer\<close> (base class, outside the given sources). With no
  free buffer and an OK background status it waits (\<open>None\<close>: no other thread will free
  one); with no free buffer and a failed background status it leaves the writer as it
  is. Otherwise the active buffer gets the next ticket, a free buffer becomes active, the
  count of outstanding compactions goes up and the compaction is scheduled.
\<close>

definition RotateBuffer :: "Formats \<Rightarrow> BufferedBlockWriter \<Rightarrow> BufferedBlockWriter option" where
  "RotateBuffer fm w =
     (case w_bufs w of
        [] \<Rightarrow> (if ok (w_bg_status w) then None else Some w)
      | b # rest \<Rightarrow>
          (let ticket = w_num_compac_scheduled w + 1;
               immbuf = w_membuf w;
               w1 = w\<lparr>w_num_compac_scheduled := ticket, w_membuf := b, w_bufs := rest,
                      w_num_bg_compactions := w_num_bg_compactions w + 1\<rparr>
           in ScheduleCompaction fm w1 ticket immbuf))"

text \<open>
  Modelled from the spec: \<open>Add\<close> fails with the sticky background status if a compaction
  has failed; otherwise it appends the record to the active buffer and rotates when the
  buffer is full.
\<close>

definition Add ::
  "Formats \<Rightarrow> BufferedBlockWriter \<Rightarrow> bytes \<Rightarrow> bytes \<Rightarrow> (Status \<times> BufferedBlockWriter) option" where
  "Add fm w k v =
     (if \<not> ok (w_bg_status w) then Some (w_bg_status w, w)
      else
        (let w1 = w\<lparr>w_bbs := (w_bbs w)[w_membuf w := w_bbs w ! w_membuf w @ [(k, v)]]\<rparr>
         in if buf_full fm (w_buf_threshold w1) (w_bbs w1 ! w_membuf w1)
            then (case RotateBuffer fm w1 of None \<Rightarrow> None | Some w2 \<Rightarrow> Some (OK, w2))
            else Some (OK, w1)))"

text \<open>Modelled from the spec: \<open>Flush\<close> rotates the active buffer if it is not empty.\<close>

definition Flush_writer ::
  "Formats \<Rightarrow> BufferedBlockWriter \<Rightarrow> (Status \<times> BufferedBlockWriter) option" where
  "Flush_writer fm w =
     (if \<not> ok (w_bg_status w) then Some (w_bg_status w, w)
      else if w_bbs w ! w_membuf w \<noteq> []
      then (case RotateBuffer fm w of None \<Rightarrow> None | Some w1 \<Rightarrow> Some (OK, w1))
      else Some (OK, w))"

text \<open>
  Modelled from the spec: \<open>Finish\<close> is idempotent; the first call rotates a non-empty
  active buffer, waits for the compactions to drain, calls \<open>SyncBackend(true)\<close> and returns
  the first error of the two steps.
\<close>

definition Finish ::
  "Formats \<Rightarrow> BufferedBlockWriter \<Rightarrow> (Status \<times> BufferedBlockWriter) option" where
  "Finish fm w =
     (if w_finished w then Some (w_finish_status w, w)
      else
        (case (if w_bbs w ! w_membuf w \<noteq> [] then RotateBuffer fm w else Some w) of
           None \<Rightarrow> None
         | Some w1 \<Rightarrow>
             (case SyncBackend w1 True of
                None \<Rightarrow> None
              | Some (st2, w2) \<Rightarrow>
                  (let st = (if ok (w_bg_status w1) then st2 else w_bg_status w1)
                   in Some (st, w2\<lparr>w_finished := True, w_finish_status := st\<rparr>)))))"

text \<open>
  A caller's sequence of \<open>Add\<close> and \<open>Flush\<close> calls (\<open>EpochFlush\<close> is \<open>Flush\<close>), each of
  which must return OK, and the records it adds.
\<close>

datatype wop = OpAdd bytes bytes | OpFlush

fun run_op ::
  "Formats \<Rightarrow> BufferedBlockWriter \<Rightarrow> wop \<Rightarrow> (Status \<times> BufferedBlockWriter) option" where
  "run_op fm w (OpAdd k v) = Add fm w k v"
| "run_op fm w OpFlush = Flush_writer fm w"

fun run_ops :: "Formats \<Rightarrow> BufferedBlockWriter \<Rightarrow> wop list \<Rightarrow> BufferedBlockWriter option" where
  "run_ops fm w [] = Some w"
| "run_ops fm w (c # cs) =
     (case run_op fm w c of
        None \<Rightarrow> None
      | Some (st, w1) \<Rightarrow> if ok st then run_ops fm w1 cs else None)"

fun records :: "wop list \<Rightarrow> (bytes \<times> bytes) list" where
  "records [] = []"
| "records (OpAdd k v # cs) = (k, v) # records cs"
| "records (OpFlush # cs) = records cs"

text \<open>
  A sequence of compactions in ticket order: the buffers \<open>is\<close> are compacted one after
  the other, each counted as outstanding while it runs and given the ticket that follows
  the last committed one. The result lists,
  for every compaction, the writer as it was when the compaction began and the buffer
  compacted, and gives the writer at the end.
\<close>

fun compactions ::
  "Formats \<Rightarrow> BufferedBlockWriter \<Rightarrow> nat list \<Rightarrow>
     ((BufferedBlockWriter \<times> nat) list \<times> BufferedBlockWriter) option" where
  "compactions fm w [] = Some ([], w)"
| "compactions fm w (i # is) =
     (case DoCompaction fm (w\<lparr>w_num_bg_compactions := w_num_bg_compactions w + 1\<rparr>)
             (w_num_compac_completed w + 1) i of
        None \<Rightarrow> None
      | Some w1 \<Rightarrow>
          (case compactions fm w1 is of
             None \<Rightarrow> None
           | Some (steps, w2) \<Rightarrow> Some ((w, i) # steps, w2)))"

text \<open>A compaction emits a block when its buffer holds records.\<close>

definition emitting :: "(BufferedBlockWriter \<times> nat) list \<Rightarrow> BufferedBlockWriter list" where
  "emitting steps = map fst (filter (\<lambda>(w, i). w_bbs w ! i \<noteq> []) steps)"

text \<open>
  The index entry written from a writer state: the size of the filter stream and the data
  offset at that moment, each as a fixed 64-bit integer.
\<close>

definition index_entry :: "BufferedBlockWriter \<Rightarrow> bytes" where
  "index_entry w = PutFixed64 (of_nat (length (w_bloomfilter w))) @ PutFixed64 (w_offset w)"

text \<open>Running calls on a file until one fails: the status of the last call run.\<close>

fun run_until_fail :: "WritableFile \<Rightarrow> wcall list \<Rightarrow> Status \<times> WritableFile" where
  "run_until_fail f [] = (OK, f)"
| "run_until_fail f (c # cs) =
     (let (st, f1) = wf_call f c in if ok st then run_until_fail f1 cs else (st, f1))"

text \<open>
  The appends \<open>Close\<close> leads to from a writer state: the filter stream if it is not
  empty, the index stripe with its final entry, and the footer with the two handles.
\<close>

definition close_appends :: "BufferedBlockWriter \<Rightarrow> wcall list" where
  "close_appends w =
     (let bloom = w_bloomfilter w;
          idx = w_indexes w @ index_entry w;
          bloom_handle = \<lparr>h_offset = w_offset w, h_size = of_nat (length bloom)\<rparr>;
          idx_handle = \<lparr>h_offset = w_offset w + of_nat (length bloom),
                        h_size = of_nat (length idx)\<rparr>
      in (if bloom \<noteq> [] then [Append bloom] else [])
         @ [Append idx,
            Append (resize (2 * kMaxEncodedLength) (EncodeTo bloom_handle @ EncodeTo idx_handle))])"

section \<open>BufferedBlockReader (pdb.cc)\<close>

text \<open>
  A \<open>RandomAccessFile\<close> of the environment: \<open>Read(offset, n)\<close> returns a status and a
  slice. As for the writable file, the answer may depend on the reads made before. The
  history also notes which place in the reader issued each read.
\<close>

datatype rkind = FooterRead | IndexRead | DataRead

record RandomAccessFile =
  r_behaviour :: "(nat \<times> nat) list \<Rightarrow> nat \<Rightarrow> nat \<Rightarrow> Status \<times> bytes"
  r_history :: "(rkind \<times> nat \<times> nat) list"

definition rf_read ::
  "RandomAccessFile \<Rightarrow> rkind \<Rightarrow> nat \<Rightarrow> nat \<Rightarrow> Status \<times> bytes \<times> RandomAccessFile" where
  "rf_read f kind offset n =
     (let (st, res) = r_behaviour f (map snd (r_history f)) offset n
      in (st, res, f\<lparr>r_history := r_history f @ [(kind, offset, n)]\<rparr>))"

text \<open>A file that holds the given bytes and serves every read from them.\<close>

definition stored_file :: "bytes \<Rightarrow> RandomAccessFile" where
  "stored_file content =
     \<lparr>r_behaviour = (\<lambda>h offset n. (OK, take n (drop offset content))), r_history = []\<rparr>"

text \<open>
  The reader's members (\<open>x_\<close> is \<open>r_x\<close>). The slices \<open>cache_contents_\<close>, \<open>indexes_\<close> and
  \<open>bloomfilter_\<close> are the bytes they cover.
\<close>

record BufferedBlockReader =
  r_options :: DirOptions
  r_src :: RandomAccessFile
  r_src_sz :: nat
  r_cache_status :: Status
  r_cache_contents :: bytes
  r_indexes :: bytes
  r_bloomfilter :: bytes

definition new_BufferedBlockReader ::
  "DirOptions \<Rightarrow> RandomAccessFile \<Rightarrow> nat \<Rightarrow> BufferedBlockReader" where
  "new_BufferedBlockReader options src src_sz =
     \<lparr>r_options = options, r_src = src, r_src_sz = src_sz, r_cache_status = OK,
      r_cache_contents = [], r_indexes = [], r_bloomfilter = []\<rparr>"

text \<open>
  A call either returns or throws: \<open>std::string::resize\<close> throws \<open>std::length_error\<close>
  when asked for more than \<open>max_size()\<close> bytes, and the reader has no handler, so the
  exception leaves \<open>Get\<close>. The reader stays usable afterwards.
\<close>

datatype 'a finished = Returns 'a | Throws

text \<open>
  \<open>GetFrom\<close>: size the buffer, read the block, look the key up. It returns whether a
  value was found, the status and the value, or throws before any read; with it comes
  the file after the call.
\<close>

definition GetFrom ::
  "Formats \<Rightarrow> RandomAccessFile \<Rightarrow> bytes \<Rightarrow> nat \<Rightarrow> nat \<Rightarrow>
     (bool \<times> Status \<times> bytes option) finished \<times> RandomAccessFile" where
  "GetFrom fm src k offset n =
     (if string_max_size fm < n then (Throws, src)
      else
        (let (st, contents, src1) = rf_read src DataRead offset n;
             status = (if ok st \<and> length contents \<noteq> n
                       then IOError ''Read ret partial data'' '''' else st)
         in if ok status then
              (case block_seek (block_parse fm contents) k of
                 Some v \<Rightarrow> (Returns (True, status, Some v), src1)
               | None \<Rightarrow> (Returns (False, status, None), src1))
            else (Returns (False, status, None), src1)))"

text \<open>
  The loop of \<open>Get\<close>, from the entry at \<open>off\<close> of the index stripe on, with the offsets
  read from the entry before. It returns the status and the value stored through
  \<open>result\<close> (\<open>None\<close> when \<open>result\<close> is left as it was).
\<close>

function Get_loop ::
  "Formats \<Rightarrow> bytes \<Rightarrow> bytes \<Rightarrow> bytes \<Rightarrow> RandomAccessFile \<Rightarrow> u64 \<Rightarrow> u64 \<Rightarrow> nat \<Rightarrow> Status \<Rightarrow>
     (Status \<times> bytes option) finished \<times> RandomAccessFile" where
  "Get_loop fm indexes bloomfilter k src bloomoffset offset off status =
     (if off + 15 < length indexes then
        (let next_bloomoffset = DecodeFixed64 (drop off indexes);
             next_offset = DecodeFixed64 (drop (off + 8) indexes);
             bf = take (unat (next_bloomoffset - bloomoffset)) (drop (unat bloomoffset) bloomfilter)
         in if bloom_may_match fm k bf then
              (case GetFrom fm src k (unat offset) (unat (next_offset - offset)) of
                 (Throws, src1) \<Rightarrow> (Throws, src1)
               | (Returns (found, status1, result), src1) \<Rightarrow>
                   if found then (Returns (status1, result), src1)
                   else if \<not> ok status1 then (Returns (status1, None), src1)
                   else Get_loop fm indexes bloomfilter k src1 next_bloomoffset next_offset
                          (off + 16) status1)
            else Get_loop fm indexes bloomfilter k src next_bloomoffset next_offset
                   (off + 16) status)
      else (Returns (status, None), src))"
  by pat_completeness auto
termination
  by (relation "measure (\<lambda>(fm, indexes, bloomfilter, k, src, bo, offset, off, status).
        length indexes - off)") auto

declare Get_loop.simps [simp del]

text \<open>
  \<open>LoadIndexesAndFilters\<close>. \<open>None\<close>: an assertion fails (the two handles do not follow one
  another, or a slice is cut by more than its size). \<open>Throws\<close>: the two sizes of the
  footer add up to more than a string can hold, so that \<open>cache_.resize\<close> throws before
  anything is read.
\<close>

definition LoadIndexesAndFilters ::
  "Formats \<Rightarrow> BufferedBlockReader \<Rightarrow> bytes \<Rightarrow> (Status finished \<times> BufferedBlockReader) option" where
  "LoadIndexesAndFilters fm r footer =
     (case DecodeFrom footer of
        Inl e \<Rightarrow> Some (Returns e, r\<lparr>r_cache_status := e\<rparr>)
      | Inr (bloomfilter_handle, footer1) \<Rightarrow>
          (case DecodeFrom footer1 of
             Inl e \<Rightarrow> Some (Returns e, r\<lparr>r_cache_status := e\<rparr>)
           | Inr (index_handle, footer2) \<Rightarrow>
               (let start = h_offset bloomfilter_handle in
                if start + h_size bloomfilter_handle \<noteq> h_offset index_handle then None
                else
                  (let totalbytes = unat (h_size bloomfilter_handle + h_size index_handle) in
                   if string_max_size fm < totalbytes
                   then Some (Throws, r\<lparr>r_cache_status := OK\<rparr>)
                   else
                     (let (st, contents, src1) =
                            rf_read (r_src r) IndexRead (unat start) totalbytes;
                          status = (if ok st \<and> length contents \<noteq> totalbytes
                                    then IOError ''Read ret partial data'' '''' else st);
                          r1 = r\<lparr>r_src := src1, r_cache_contents := contents,
                                 r_cache_status := status\<rparr>
                      in if \<not> ok status then Some (Returns status, r1)
                         else if length contents < unat (h_size bloomfilter_handle) then None
                         else if length contents < unat (h_size index_handle) then None
                         else
                           (let indexes = drop (unat (h_size bloomfilter_handle)) contents;
                                bloomfilter =
                                  take (length contents - unat (h_size index_handle)) contents;
                                status2 = (if length indexes < 16
                                           then Corruption ''Indexes too short to be valid'' ''''
                                           else status)
                            in Some (Returns status2,
                                     r1\<lparr>r_indexes := indexes, r_bloomfilter := bloomfilter,
                                        r_cache_status := status2\<rparr>)))))))"

definition MaybeLoadCache ::
  "Formats \<Rightarrow> BufferedBlockReader \<Rightarrow> (Status finished \<times> BufferedBlockReader) option" where
  "MaybeLoadCache fm r =
     (if \<not> ok (r_cache_status r) \<or> r_cache_contents r \<noteq> []
      then Some (Returns (r_cache_status r), r)
      else
        (let footer_sz = 2 * kMaxEncodedLength in
         if r_src_sz r < footer_sz
         then Some (Returns (Corruption ''Input file too short for a footer'' ''''),
                    r\<lparr>r_cache_status := Corruption ''Input file too short for a footer'' ''''\<rparr>)
         else
           (let (st, footer, src1) = rf_read (r_src r) FooterRead (r_src_sz r - footer_sz) footer_sz;
                status = (if ok st \<and> length footer \<noteq> footer_sz
                          then IOError ''Read ret partial data'' '''' else st);
                r1 = r\<lparr>r_src := src1, r_cache_status := status\<rparr>
            in if ok status then LoadIndexesAndFilters fm r1 footer
               else Some (Returns status, r1))))"

text \<open>
  \<open>Get\<close>: what the call does (it returns the status and the value stored through
  \<open>result\<close>, or it throws) and the reader afterwards. \<open>None\<close>: an assertion fails.
\<close>

definition Get ::
  "Formats \<Rightarrow> BufferedBlockReader \<Rightarrow> bytes \<Rightarrow>
     ((Status \<times> bytes option) finished \<times> BufferedBlockReader) option" where
  "Get fm r k =
     (case MaybeLoadCache fm r of
        None \<Rightarrow> None
      | Some (Throws, r1) \<Rightarrow> Some (Throws, r1)
      | Some (Returns status, r1) \<Rightarrow>
          if \<not> ok status then Some (Returns (status, None), r1)
          else if length (r_indexes r1) < 16 then None
          else
            (let (out, src1) =
                   Get_loop fm (r_indexes r1) (r_bloomfilter r1) k (r_src r1)
                     (DecodeFixed64 (r_indexes r1)) (DecodeFixed64 (drop 8 (r_indexes r1)))
                     16 status
             in Some (out, r1\<lparr>r_src := src1\<rparr>)))"


section \<open>A plain instance of the formats\<close>

text \<open>
  For concrete runs: a block is its records one after the other, each as the length of
  the key and the length of the value (varints of any size), then the key and the value;
  the filter is one byte and matches every key; a buffer is full when its block would
  reach the threshold; a string holds up to \<open>2^62\<close> bytes.
\<close>

fun get_uvar :: "bytes \<Rightarrow> (nat \<times> bytes) option" where
  "get_uvar [] = None"
| "get_uvar (b # p) =
     (if 128 \<le> unat b then
        (case get_uvar p of
           None \<Rightarrow> None
         | Some (v, rest) \<Rightarrow> Some (unat b - 128 + 128 * v, rest))
      else Some (unat b, p))"

fun put_records :: "(bytes \<times> bytes) list \<Rightarrow> bytes" where
  "put_records [] = []"
| "put_records ((k, v) # es) = varint (length k) @ varint (length v) @ k @ v @ put_records es"

fun get_records :: "nat \<Rightarrow> bytes \<Rightarrow> (bytes \<times> bytes) list" where
  "get_records 0 b = []"
| "get_records (Suc n) b =
     (case get_uvar b of
        None \<Rightarrow> []
      | Some (kl, b1) \<Rightarrow>
          (case get_uvar b1 of
             None \<Rightarrow> []
           | Some (vl, b2) \<Rightarrow>
               (take kl b2, take vl (drop kl b2)) # get_records n (drop (kl + vl) b2)))"

definition plain_formats :: Formats where
  "plain_formats =
     \<lparr>block_finish = put_records,
      block_parse = (\<lambda>b. get_records (length b) b),
      bloom_finish = (\<lambda>bits n ks. [of_nat (length ks)]),
      bloom_may_match = (\<lambda>k f. True),
      buf_full = (\<lambda>threshold es. threshold \<le> length (put_records es)),
      string_max_size = 2 ^ 62\<rparr>"

definition default_options :: DirOptions where
  "default_options = \<lparr>bf_bits_per_key = 8, compaction_pool = False, allow_env_threads = False\<rparr>"

text \<open>A file on which every \<open>Append\<close> fails and every other call succeeds.\<close>

definition full_disk :: WritableFile where
  "full_disk =
     \<lparr>behaviour = (\<lambda>h c. case c of Append d \<Rightarrow> IOError ''No space left'' '''' | _ \<Rightarrow> OK),
      history = []\<rparr>"

section \<open>Notions used in the statements about the writer\<close>

text \<open>The appends \<open>DumpIndexesAndFilters\<close> leads to from a writer state.\<close>

definition dump_appends :: "BufferedBlockWriter \<Rightarrow> wcall list" where
  "dump_appends w =
     (if w_bloomfilter w \<noteq> [] then [Append (w_bloomfilter w)] else [])
     @ [Append (w_indexes w @ index_entry w)]"

text \<open>
  What a compaction leaves alone (\<open>same_bookkeeping\<close>) and how it moves the streams
  (\<open>grows\<close>): the filter stream gets longer at its end, the data offset moves forward by
  the size of the bytes handed to the destination or stays, and those bytes are added to
  what the destination has been handed (\<open>handed\<close>, counted in bytes).
\<close>

definition same_bookkeeping :: "BufferedBlockWriter \<Rightarrow> BufferedBlockWriter \<Rightarrow> bool" where
  "same_bookkeeping w w1 \<longleftrightarrow>
     w_bbs w1 = w_bbs w \<and> w_bufs w1 = w_bufs w \<and> w_membuf w1 = w_membuf w
   \<and> w_num_compac_completed w1 = w_num_compac_completed w
   \<and> w_num_compac_scheduled w1 = w_num_compac_scheduled w
   \<and> w_num_bg_compactions w1 = w_num_bg_compactions w
   \<and> w_bg_status w1 = w_bg_status w \<and> w_finished w1 = w_finished w
   \<and> w_options w1 = w_options w \<and> w_buf_threshold w1 = w_buf_threshold w
   \<and> behaviour (w_dst w1) = behaviour (w_dst w)"

definition grows :: "BufferedBlockWriter \<Rightarrow> BufferedBlockWriter \<Rightarrow> bool" where
  "grows w w1 \<longleftrightarrow>
     (\<exists>flt. w_bloomfilter w1 = w_bloomfilter w @ flt)
   \<and> (\<exists>blk. (w_offset w1 = w_offset w + of_nat (length blk) \<or> w_offset w1 = w_offset w)
          \<and> appended (history (w_dst w1)) = appended (history (w_dst w)) @ blk)"

abbreviation handed :: "BufferedBlockWriter \<Rightarrow> nat" where
  "handed v \<equiv> length (appended (history (w_dst v)))"

text \<open>A fresh writer with two buffers after \<open>Add\<close> of one record (key 1, value 2 3).\<close>

definition one_record_writer :: BufferedBlockWriter where
  "one_record_writer =
     (new_BufferedBlockWriter default_options good_file 64 2)\<lparr>w_bbs := [[([1], [2, 3])], []]\<rparr>"

section \<open>Notions used in the statements about the reader\<close>

text \<open>
  \<open>latched\<close>: a first load has completed, so that \<open>MaybeLoadCache\<close> returns at once.
  \<open>index_ready\<close>: a reader whose load succeeded holds at least one index entry.
  \<open>only_data_reads src src1\<close>: the file \<open>src1\<close> is \<open>src\<close> after further reads, all of
  them issued by \<open>GetFrom\<close>. \<open>count_reads\<close> counts the reads of one kind in a history.
\<close>

definition latched :: "BufferedBlockReader \<Rightarrow> bool" where
  "latched r \<longleftrightarrow> \<not> ok (r_cache_status r) \<or> r_cache_contents r \<noteq> []"




section \<open>The file a run of the writer leaves\<close>

text \<open>
  For the buffers compacted so far, \<open>bl\<close>, each the records it held: the filter
  \<open>Compact\<close> builds for a buffer (\<open>filter_of\<close>), the data and the filter streams, the
  offsets at which the blocks and their filters begin, ending with the pair of the final
  sizes (\<open>offs\<close>), their encoding, and the whole file with its footer.
\<close>

definition filter_of :: "Formats \<Rightarrow> DirOptions \<Rightarrow> BlockBuf \<Rightarrow> bytes" where
  "filter_of fm opts b =
     (if b \<noteq> [] \<and> bf_bits_per_key opts \<noteq> 0
      then bloom_finish fm (bf_bits_per_key opts) (length b)
             (map fst (block_parse fm (block_finish fm b)))
      else [])"

definition data_of :: "Formats \<Rightarrow> BlockBuf list \<Rightarrow> bytes" where
  "data_of fm bl = concat (map (block_finish fm) bl)"

definition filters_of :: "Formats \<Rightarrow> DirOptions \<Rightarrow> BlockBuf list \<Rightarrow> bytes" where
  "filters_of fm opts bl = concat (map (filter_of fm opts) bl)"

fun offs :: "Formats \<Rightarrow> DirOptions \<Rightarrow> nat \<Rightarrow> nat \<Rightarrow> BlockBuf list \<Rightarrow> (nat \<times> nat) list" where
  "offs fm opts f d [] = [(f, d)]"
| "offs fm opts f d (b # bl) =
     (f, d) # offs fm opts (f + length (filter_of fm opts b)) (d + length (block_finish fm b)) bl"

definition enc_entries :: "(nat \<times> nat) list \<Rightarrow> bytes" where
  "enc_entries ps = concat (map (\<lambda>(f, d). PutFixed64 (of_nat f) @ PutFixed64 (of_nat d)) ps)"

definition footer_of :: "nat \<Rightarrow> nat \<Rightarrow> nat \<Rightarrow> bytes" where
  "footer_of d f i =
     resize (2 * kMaxEncodedLength)
       (EncodeTo \<lparr>h_offset = of_nat d, h_size = of_nat f\<rparr>
        @ EncodeTo \<lparr>h_offset = of_nat d + of_nat f, h_size = of_nat i\<rparr>)"

definition file_of :: "Formats \<Rightarrow> DirOptions \<Rightarrow> BlockBuf list \<Rightarrow> bytes" where
  "file_of fm opts bl =
     data_of fm bl @ filters_of fm opts bl @ enc_entries (offs fm opts 0 0 bl)
     @ footer_of (length (data_of fm bl)) (length (filters_of fm opts bl))
         (length (enc_entries (offs fm opts 0 0 bl)))"

text \<open>
  What the writer and the reader rely on in the formats: iterating a finished block
  yields the records of the buffer, and the filter built from a buffer matches each of
  its keys (an empty filter, as written when filters are off, matches as well).
\<close>

definition formats_ok :: "Formats \<Rightarrow> DirOptions \<Rightarrow> bool" where
  "formats_ok fm opts \<longleftrightarrow>
     (\<forall>es. block_parse fm (block_finish fm es) = es)
   \<and> (\<forall>es k. k \<in> fst ` set es \<longrightarrow> bloom_may_match fm k (filter_of fm opts es))"

text \<open>
  The state of a writer on a destination that accepts every call, with no compaction
  pool, after it has compacted the buffers \<open>bl\<close> and while its active buffer holds \<open>cur\<close>.
\<close>

definition winv ::
  "Formats \<Rightarrow> DirOptions \<Rightarrow> BufferedBlockWriter \<Rightarrow> BlockBuf list \<Rightarrow> BlockBuf \<Rightarrow> bool" where
  "winv fm opts w bl cur \<longleftrightarrow>
     w_options w = opts \<and> \<not> compaction_pool opts \<and> \<not> allow_env_threads opts
   \<and> behaviour (w_dst w) = (\<lambda>h c. OK)
   \<and> appended (history (w_dst w)) = data_of fm bl
   \<and> w_bloomfilter w = filters_of fm opts bl
   \<and> w_offset w = of_nat (length (data_of fm bl))
   \<and> w_indexes w = enc_entries (butlast (offs fm opts 0 0 bl))
   \<and> [] \<notin> set bl
   \<and> w_membuf w < length (w_bbs w) \<and> w_bbs w ! w_membuf w = cur
   \<and> w_bufs w \<noteq> [] \<and> distinct (w_bufs w) \<and> w_membuf w \<notin> set (w_bufs w)
   \<and> (\<forall>i \<in> set (w_bufs w). i < length (w_bbs w) \<and> w_bbs w ! i = [])
   \<and> w_num_bg_compactions w = 0 \<and> ok (w_bg_status w) \<and> \<not> w_finished w
   \<and> w_num_compac_scheduled w = of_nat (length bl)
   \<and> w_num_compac_completed w = of_nat (length bl)"

text \<open>
  The value the loop of \<open>Get\<close> finds in the blocks \<open>bl\<close>: that of the first block whose
  filter matches the key and which holds an entry for it.
\<close>

fun first_found :: "Formats \<Rightarrow> DirOptions \<Rightarrow> BlockBuf list \<Rightarrow> bytes \<Rightarrow> bytes option" where
  "first_found fm opts [] k = None"
| "first_found fm opts (b # bl) k =
     (if bloom_may_match fm k (filter_of fm opts b) then
        (case block_seek b k of Some v \<Rightarrow> Some v | None \<Rightarrow> first_found fm opts bl k)
      else first_found fm opts bl k)"

text \<open>
  The buffers a sequence of compactions emits as blocks: every buffer that held records
  when its compaction began. \<open>index_stripe_of\<close> is the index stripe that gives, for
  \<open>i\<close> from 0 up to the number of blocks, the size of the filters and the size of the
  data of the first \<open>i\<close> blocks. \<open>streams_hold\<close>: the streams of a writer, on a destination
  that accepts every call, after it has emitted the blocks \<open>bl\<close>.
\<close>

definition emitted :: "(BufferedBlockWriter \<times> nat) list \<Rightarrow> BlockBuf list" where
  "emitted steps = map (\<lambda>(w, i). w_bbs w ! i) (filter (\<lambda>(w, i). w_bbs w ! i \<noteq> []) steps)"

definition index_stripe_of :: "Formats \<Rightarrow> DirOptions \<Rightarrow> BlockBuf list \<Rightarrow> bytes" where
  "index_stripe_of fm opts bl =
     concat (map (\<lambda>i. PutFixed64 (of_nat (length (filters_of fm opts (take i bl))))
                      @ PutFixed64 (of_nat (length (data_of fm (take i bl)))))
               [0..<length bl + 1])"

definition streams_hold ::
  "Formats \<Rightarrow> DirOptions \<Rightarrow> BufferedBlockWriter \<Rightarrow> BlockBuf list \<Rightarrow> bool" where
  "streams_hold fm opts w bl \<longleftrightarrow>
     w_options w = opts
   \<and> behaviour (w_dst w) = (\<lambda>h c. OK)
   \<and> appended (history (w_dst w)) = data_of fm bl
   \<and> w_bloomfilter w = filters_of fm opts bl
   \<and> w_offset w = of_nat (length (data_of fm bl))
   \<and> w_indexes w = enc_entries (butlast (offs fm opts 0 0 bl))
   \<and> w_num_bg_compactions w = 0"

text \<open>
  A writer with two buffers that each hold one record: key 1 with value 2 3, and key 4
  with value 5.
\<close>

definition two_block_writer :: BufferedBlockWriter where
  "two_block_writer =
     (new_BufferedBlockWriter default_options good_file 64 2)
       \<lparr>w_bbs := [[([1], [2, 3])], [([4], [5])]]\<rparr>"

text \<open>
  \<open>loaded\<close>: a reader over a file that holds the blocks \<open>bl\<close> as the writer leaves them,
  after its load has succeeded.
\<close>

definition loaded :: "Formats \<Rightarrow> DirOptions \<Rightarrow> BlockBuf list \<Rightarrow> BufferedBlockReader \<Rightarrow> bool" where
  "loaded fm opts bl r \<longleftrightarrow>
     r_cache_status r = OK \<and> r_cache_contents r \<noteq> []
   \<and> r_indexes r = enc_entries (offs fm opts 0 0 bl)
   \<and> r_bloomfilter r = filters_of fm opts bl
   \<and> r_behaviour (r_src r) = (\<lambda>h offset n. (OK, take n (drop offset (file_of fm opts bl))))"


text \<open>
  Two files in the plain formats. \<open>two_block_file\<close>: the blocks of the records (key 1,
  value 2 3) and (key 4, value 5), their filters, the index entries (0, 0), (1, 5) and
  (2, 9), and the footer with the handles (9, 2) and (11, 48); 99 bytes.
  \<open>no_record_file\<close>: no block, the index entry (0, 0) and the footer with the handles
  (0, 0) and (0, 16); 56 bytes.
\<close>

definition two_block_file :: bytes where
  "two_block_file =
     [1, 2, 1, 2, 3] @ [1, 1, 4, 5] @ [1, 1]
     @ (PutFixed64 0 @ PutFixed64 0 @ PutFixed64 1 @ PutFixed64 5 @ PutFixed64 2 @ PutFixed64 9)
     @ ([9, 2, 11, 48] @ replicate 36 0)"

definition no_record_file :: bytes where
  "no_record_file = (PutFixed64 0 @ PutFixed64 0) @ ([0, 0, 0, 16] @ replicate 36 0)"

(*DEFS_END*)

section \<open>Properties of the log sink\<close>

lemma Lwrite_open_cases:
  assumes "l_file s = Some f"
  shows "Lwrite s d = (r, s') \<Longrightarrow>
         (ok r \<and> l_off s' = l_off s + of_nat (length d)) \<or> (\<not> ok r \<and> l_off s' = l_off s)"
  using assms
  by (auto simp: Lwrite_def Let_def split: prod.splits if_splits)

lemma Lwrite_stays_open:
  "l_file s \<noteq> None \<Longrightarrow> l_file (snd (Lwrite s d)) \<noteq> None"
  by (auto simp: Lwrite_def Let_def split: prod.splits option.splits)

text \<open>
  C6. On an open sink, a successful \<open>Lwrite\<close> moves the logical offset forward by the
  size of the data (in \<open>uint64_t\<close> arithmetic), a failed one leaves it where it was;
  so, as long as the sum stays in the range of a \<open>uint64_t\<close>, the offset read as a
  number grows by exactly the size on success and never decreases.
\<close>

theorem Lwrite_offset:
  assumes "l_file s = Some f" and "Lwrite s d = (r, s')"
  shows "(ok r \<longrightarrow> Ltell s' = Ltell s + of_nat (length d))
       \<and> (\<not> ok r \<longrightarrow> Ltell s' = Ltell s)
       \<and> (unat (Ltell s) + length d < 2 ^ 64 \<longrightarrow>
            Ltell s \<le> Ltell s'
          \<and> (ok r \<longrightarrow> unat (Ltell s') = unat (Ltell s) + length d))"
proof -
  from Lwrite_open_cases [OF assms]
  consider (good) "ok r" "l_off s' = l_off s + of_nat (length d)"
    | (bad) "\<not> ok r" "l_off s' = l_off s"
    by blast
  then show ?thesis
  proof cases
    case good
    have grow: "unat (l_off s + of_nat (length d)) = unat (l_off s) + length d"
      if "unat (l_off s) + length d < 2 ^ 64"
    proof -
      have "length d < 2 ^ 64" using that by simp
      then have "unat (of_nat (length d) :: u64) = length d"
        by (simp add: unat_of_nat)
      then show ?thesis
        using that by (simp add: unat_word_ariths)
    qed
    show ?thesis
      using good grow by (auto simp: Ltell_def word_le_nat_alt)
  next
    case bad
    then show ?thesis by (simp add: Ltell_def)
  qed
qed

theorem Lwrite_offset_witness:
  "Lwrite \<lparr>l_file = Some good_file, l_filename = ''a.dat'', l_off = 5\<rparr> [1, 2, 3]
     = (OK, \<lparr>l_file = Some (good_file\<lparr>history := [Append [1, 2, 3], Flush]\<rparr>),
             l_filename = ''a.dat'', l_off = 8\<rparr>)
   \<and> Ltell \<lparr>l_file = Some (good_file\<lparr>history := [Append [1, 2, 3], Flush]\<rparr>),
             l_filename = ''a.dat'', l_off = 8\<rparr> = 8"
proof -
  let ?s = "\<lparr>l_file = Some good_file, l_filename = ''a.dat'', l_off = 5\<rparr>"
  let ?s' = "\<lparr>l_file = Some (good_file\<lparr>history := [Append [1, 2, 3], Flush]\<rparr>),
             l_filename = ''a.dat'', l_off = 8\<rparr>"
  have run: "Lwrite ?s [1, 2, 3] = (OK, ?s')"
    by (simp add: Lwrite_def wf_call_def good_file_def)
  have "l_file ?s = Some good_file" by simp
  from Lwrite_offset [OF this run] have "Ltell ?s' = Ltell ?s + of_nat (length [1, 2, 3 :: byte])"
    by simp
  then have "Ltell ?s' = 8" by (simp add: Ltell_def)
  with run show ?thesis by simp
qed

text \<open>
  C8. On a sink whose file is gone (the state \<open>Lclose\<close> leaves: \<open>l_file\<close> is NULL after
  \<open>Finish\<close>), every later \<open>Lwrite\<close> and \<open>Lsync\<close> returns \<open>Disconnected\<close> and changes
  nothing: no byte is appended and the offset stays.
\<close>

theorem closed_sink_disconnected:
  assumes "l_file s = None"
  shows "Lcalls s cs = (replicate (length cs) (Disconnected ''Log already closed'' (l_filename s)), s)"
  using assms
proof (induction cs)
  case Nil
  then show ?case by simp
next
  case (Cons c cs)
  have "Lcall s c = (Disconnected ''Log already closed'' (l_filename s), s)"
    using Cons.prems by (cases c) (simp_all add: Lwrite_def Lsync_def)
  with Cons show ?case by simp
qed

theorem closed_sink_disconnected_witness:
  "Lcalls \<lparr>l_file = None, l_filename = ''a.dat'', l_off = 7\<rparr> [LWrite [1, 2], LSync, LWrite []]
     = ([Disconnected ''Log already closed'' ''a.dat'',
         Disconnected ''Log already closed'' ''a.dat'',
         Disconnected ''Log already closed'' ''a.dat''],
        \<lparr>l_file = None, l_filename = ''a.dat'', l_off = 7\<rparr>)"
  using closed_sink_disconnected [of "\<lparr>l_file = None, l_filename = ''a.dat'', l_off = 7\<rparr>"
      "[LWrite [1, 2], LSync, LWrite []]"]
  by simp

section \<open>Properties of the writer\<close>

lemma alloc_bufs_eq: "alloc_bufs n = (replicate n [], [1..<n])"
proof (induction n)
  case 0
  then show ?case by (simp add: alloc_bufs_def)
next
  case (Suc n)
  have "alloc_bufs (Suc n) = alloc_step n (alloc_bufs n)"
    by (simp add: alloc_bufs_def)
  also have "\<dots> = (replicate n [] @ [[]], if n \<noteq> 0 then [1..<n] @ [n] else [])"
    by (simp add: Suc alloc_step_def)
  also have "\<dots> = (replicate (Suc n) [], [1..<Suc n])"
    by (cases n) (simp_all add: replicate_append_same)
  finally show ?case .
qed

text \<open>
  C9. Whatever count \<open>n\<close> is asked for (0 and 1 included), the constructor allocates
  \<open>max n 2\<close> block buffers, makes buffer 0 the active one and puts all the others, and
  only them, on the free list: the writer has at least two buffers.
\<close>

theorem constructor_buffers:
  "length (w_bbs (new_BufferedBlockWriter options dst buf_size n)) = max n 2
   \<and> w_n (new_BufferedBlockWriter options dst buf_size n) = max n 2
   \<and> w_membuf (new_BufferedBlockWriter options dst buf_size n) = 0
   \<and> w_bufs (new_BufferedBlockWriter options dst buf_size n) = [1..<max n 2]
   \<and> w_membuf (new_BufferedBlockWriter options dst buf_size n)
        \<notin> set (w_bufs (new_BufferedBlockWriter options dst buf_size n))
   \<and> length (w_bufs (new_BufferedBlockWriter options dst buf_size n)) = max n 2 - 1"
proof -
  have m: "(if n < 2 then 2 else n) = max n 2" by simp
  show ?thesis
    unfolding new_BufferedBlockWriter_def m alloc_bufs_eq Let_def
    by simp
qed

lemma ok_iff: "ok st \<longleftrightarrow> st = OK"
  by (cases st) simp_all

lemma dst_call_eq:
  "dst_call w c = (behaviour (w_dst w) (history (w_dst w)) c,
                   w\<lparr>w_dst := (w_dst w)\<lparr>history := history (w_dst w) @ [c]\<rparr>\<rparr>)"
  by (simp add: dst_call_def wf_call_def)

lemma length_index_entry: "length (index_entry w) = 16"
  by (simp add: index_entry_def PutFixed64_def)

lemma index_entry_nonempty: "xs @ index_entry w \<noteq> []"
  using length_index_entry [of w] by (cases "index_entry w") auto

lemma Dump_dst:
  "(fst (DumpIndexesAndFilters w), w_dst (snd (DumpIndexesAndFilters w)))
     = run_until_fail (w_dst w) (dump_appends w)"
proof (cases "w_bloomfilter w = []")
  case True
  then show ?thesis
    using index_entry_nonempty [of "w_indexes w" w]
    by (simp add: DumpIndexesAndFilters_def dump_appends_def dst_call_eq wf_call_def Let_def
        index_entry_def ok_iff)
next
  case False
  then show ?thesis
    using index_entry_nonempty [of "w_indexes w" w]
    by (simp add: DumpIndexesAndFilters_def dump_appends_def dst_call_eq wf_call_def Let_def
        index_entry_def ok_iff)
qed

lemma Dump_handles:
  "ok (fst (DumpIndexesAndFilters w)) \<Longrightarrow>
   w_bloomfilter_handle (snd (DumpIndexesAndFilters w))
     = \<lparr>h_offset = w_offset w, h_size = of_nat (length (w_bloomfilter w))\<rparr>
   \<and> w_index_handle (snd (DumpIndexesAndFilters w))
     = \<lparr>h_offset = w_offset w + of_nat (length (w_bloomfilter w)),
        h_size = of_nat (length (w_indexes w @ index_entry w))\<rparr>"
  by (simp add: DumpIndexesAndFilters_def dst_call_eq Let_def index_entry_def ok_iff
      split: if_splits)

lemma Dump_indexes:
  "w_indexes (snd (DumpIndexesAndFilters w)) = w_indexes w @ index_entry w"
  by (simp add: DumpIndexesAndFilters_def dst_call_eq Let_def index_entry_def ok_iff)

lemma run_until_fail_append:
  "run_until_fail f (cs @ ds) =
     (let (st, f1) = run_until_fail f cs in if ok st then run_until_fail f1 ds else (st, f1))"
  by (induction cs arbitrary: f) (auto simp: Let_def split: prod.splits)

lemma appended_append: "appended (xs @ ys) = appended xs @ appended ys"
  by (induction xs rule: appended.induct) simp_all

lemma Compact_skip:
  assumes "w_bbs w ! i = []"
  shows "Compact fm w (w_num_compac_completed w + 1) i = Some (OK, w)"
  using assms by (simp add: Compact_def)

lemma Compact_emit:
  assumes "w_bbs w ! i \<noteq> []" and "Compact fm w seq i = Some (st, w1)"
  shows "w_indexes w1 = w_indexes w @ index_entry w
       \<and> (\<exists>flt. w_bloomfilter w1 = w_bloomfilter w @ flt)
       \<and> (\<exists>blk. (w_offset w1 = w_offset w + of_nat (length blk) \<or> w_offset w1 = w_offset w)
              \<and> appended (history (w_dst w1)) = appended (history (w_dst w)) @ blk)
       \<and> same_bookkeeping w w1"
proof -
  let ?blk = "block_finish fm (w_bbs w ! i)"
  from assms have seq: "seq = w_num_compac_completed w + 1"
    by (simp add: Compact_def Let_def split: if_splits)
  show ?thesis
  proof (cases "?blk = []")
    case True
    with assms show ?thesis
      by (auto simp: Compact_def Let_def dst_call_eq index_entry_def same_bookkeeping_def
          appended_append split: if_splits)
  next
    case False
    with assms show ?thesis
      by (auto simp: Compact_def Let_def dst_call_eq index_entry_def same_bookkeeping_def
          appended_append split: if_splits)
  qed
qed

lemma DoCompaction_step:
  assumes "DoCompaction fm (w\<lparr>w_num_bg_compactions := m\<rparr>) (w_num_compac_completed w + 1) i = Some wa"
  shows "w_indexes wa = w_indexes w @ (if w_bbs w ! i = [] then [] else index_entry w)
       \<and> grows w wa"
proof (cases "w_bbs w ! i = []")
  case True
  then have "Compact fm (w\<lparr>w_num_bg_compactions := m\<rparr>) (w_num_compac_completed w + 1) i
      = Some (OK, w\<lparr>w_num_bg_compactions := m\<rparr>)"
    using Compact_skip [of "w\<lparr>w_num_bg_compactions := m\<rparr>" i fm] by simp
  with assms True show ?thesis
    by (auto simp: DoCompaction_def grows_def)
next
  case False
  let ?w = "w\<lparr>w_num_bg_compactions := m\<rparr>"
  from assms obtain st w1 where c: "Compact fm ?w (w_num_compac_completed w + 1) i = Some (st, w1)"
    and wa: "wa = w1\<lparr>w_bg_status :=
                      (if \<not> ok st \<and> ok (w_bg_status w1) then st else w_bg_status w1),
                    w_num_compac_completed := w_num_compac_completed w + 1,
                    w_bbs := (w_bbs w1)[i := []],
                    w_bufs := w_bufs w1 @ [i],
                    w_num_bg_compactions := w_num_bg_compactions w1 - 1\<rparr>"
    by (auto simp: DoCompaction_def split: option.splits)
  have "w_bbs ?w ! i \<noteq> []" using False by simp
  from Compact_emit [OF this c] show ?thesis
    using False by (simp add: wa grows_def index_entry_def)
qed

lemma grows_facts:
  assumes "grows w w1"
  shows "handed w \<le> handed w1" "length (w_bloomfilter w) \<le> length (w_bloomfilter w1)"
    and "unat (w_offset w) + (handed w1 - handed w) < 2 ^ 64 \<Longrightarrow>
           unat (w_offset w) \<le> unat (w_offset w1)
         \<and> unat (w_offset w1) \<le> unat (w_offset w) + (handed w1 - handed w)"
proof -
  from assms obtain flt blk where
    b: "w_bloomfilter w1 = w_bloomfilter w @ flt" and
    o: "w_offset w1 = w_offset w + of_nat (length blk) \<or> w_offset w1 = w_offset w" and
    h: "appended (history (w_dst w1)) = appended (history (w_dst w)) @ blk"
    by (auto simp: grows_def)
  show "handed w \<le> handed w1" using h by simp
  show "length (w_bloomfilter w) \<le> length (w_bloomfilter w1)" using b by simp
  assume lt: "unat (w_offset w) + (handed w1 - handed w) < 2 ^ 64"
  have d: "handed w1 - handed w = length blk" using h by simp
  have "unat (w_offset w + of_nat (length blk)) = unat (w_offset w) + length blk"
  proof -
    have "length blk < 2 ^ 64" using lt d by simp
    then have "unat (of_nat (length blk) :: u64) = length blk"
      by (simp add: unat_of_nat)
    then show ?thesis using lt d by (simp add: unat_word_ariths)
  qed
  with o d show "unat (w_offset w) \<le> unat (w_offset w1)
         \<and> unat (w_offset w1) \<le> unat (w_offset w) + (handed w1 - handed w)"
    by auto
qed

lemma compactions_indexes:
  "compactions fm w is = Some (steps, w') \<Longrightarrow>
     w_indexes w' = w_indexes w @ concat (map index_entry (emitting steps))"
proof (induction "is" arbitrary: w steps)
  case Nil
  then show ?case by (simp add: emitting_def)
next
  case (Cons i "is")
  from Cons.prems obtain wa steps' where
    d: "DoCompaction fm (w\<lparr>w_num_bg_compactions := w_num_bg_compactions w + 1\<rparr>)
          (w_num_compac_completed w + 1) i = Some wa" and
    r: "compactions fm wa is = Some (steps', w')" and
    s: "steps = (w, i) # steps'"
    by (auto split: option.splits)
  from DoCompaction_step [OF d] Cons.IH [OF r] show ?case
    by (simp add: s emitting_def)
qed

lemma compactions_monotone:
  "compactions fm w is = Some (steps, w') \<Longrightarrow>
     handed w \<le> handed w'
   \<and> sorted (map (\<lambda>v. length (w_bloomfilter v)) (w # map fst steps @ [w']))
   \<and> (unat (w_offset w) + (handed w' - handed w) < 2 ^ 64 \<longrightarrow>
        sorted (map (\<lambda>v. unat (w_offset v)) (w # map fst steps @ [w'])))"
proof (induction "is" arbitrary: w steps)
  case Nil
  then show ?case by simp
next
  case (Cons i "is")
  from Cons.prems obtain wa steps' where
    d: "DoCompaction fm (w\<lparr>w_num_bg_compactions := w_num_bg_compactions w + 1\<rparr>)
          (w_num_compac_completed w + 1) i = Some wa" and
    r: "compactions fm wa is = Some (steps', w')" and
    s: "steps = (w, i) # steps'"
    by (auto split: option.splits)
  from DoCompaction_step [OF d] have g: "grows w wa" by simp
  note ih = Cons.IH [OF r]
  note gf = grows_facts [OF g]
  from ih have aw: "handed wa \<le> handed w'" by blast
  from ih have ihb: "sorted (map (\<lambda>v. length (w_bloomfilter v)) (wa # map fst steps' @ [w']))"
    by blast
  from ih have ihc: "unat (w_offset wa) + (handed w' - handed wa) < 2 ^ 64 \<Longrightarrow>
        sorted (map (\<lambda>v. unat (w_offset v)) (wa # map fst steps' @ [w']))"
    by blast
  have a: "handed w \<le> handed w'" using gf(1) aw by linarith
  have b: "sorted (map (\<lambda>v. length (w_bloomfilter v)) (w # map fst steps @ [w']))"
    using ihb gf(2) by (auto simp: s)
  have c: "sorted (map (\<lambda>v. unat (w_offset v)) (w # map fst steps @ [w']))"
    if lt: "unat (w_offset w) + (handed w' - handed w) < 2 ^ 64"
  proof -
    have "unat (w_offset w) + (handed wa - handed w) < 2 ^ 64"
      using lt gf(1) aw by linarith
    from gf(3) [OF this] have o: "unat (w_offset w) \<le> unat (w_offset wa)"
      "unat (w_offset wa) \<le> unat (w_offset w) + (handed wa - handed w)" by simp_all
    have "unat (w_offset wa) + (handed w' - handed wa) < 2 ^ 64"
      using o(2) lt gf(1) aw by linarith
    from ihc [OF this] o(1) show ?thesis by (auto simp: s)
  qed
  from a b c show ?case by blast
qed

lemma upt8: "[0..<8] = [0, 1, 2, 3, 4, 5, 6, 7 :: nat]"
  by (simp add: upt_rec)

lemma PutFixed64_0: "PutFixed64 0 = [0, 0, 0, 0, 0, 0, 0, 0]"
  by (simp add: PutFixed64_def upt8)

lemma close_appends_split:
  "close_appends w = dump_appends w @
     [Append (resize (2 * kMaxEncodedLength)
        (EncodeTo \<lparr>h_offset = w_offset w, h_size = of_nat (length (w_bloomfilter w))\<rparr>
         @ EncodeTo \<lparr>h_offset = w_offset w + of_nat (length (w_bloomfilter w)),
                     h_size = of_nat (length (w_indexes w @ index_entry w))\<rparr>))]"
  by (simp add: close_appends_def dump_appends_def Let_def)

text \<open>
  C5 (amended). \<open>SyncBackend(close = true)\<close>, the step of \<open>Finish\<close> that emits the filter
  stream, the index stripe and the footer and then syncs and closes the destination,
  stops at the first append that fails and returns its status: a later append, \<open>Sync\<close>
  and \<open>Close\<close> are made only when every append before succeeded. After the appends it
  returns the status of \<open>Sync\<close>, and it calls \<open>Close\<close> whatever \<open>Sync\<close> returned, dropping
  the status of \<open>Close\<close>.
\<close>

theorem SyncBackend_close_first_error:
  assumes "w_num_bg_compactions w = 0"
  shows "map_option (\<lambda>(st, w'). (st, w_dst w')) (SyncBackend w True) =
         Some (let (st1, f1) = run_until_fail (w_dst w) (close_appends w) in
               if ok st1 then (let (st2, f2) = wf_call f1 Sync in (st2, snd (wf_call f2 Close)))
               else (st1, f1))"
proof -
  obtain s1 w1 where d: "DumpIndexesAndFilters w = (s1, w1)"
    by (cases "DumpIndexesAndFilters w") auto
  have r: "run_until_fail (w_dst w) (dump_appends w) = (s1, w_dst w1)"
    using Dump_dst [of w] d by simp
  show ?thesis
  proof (cases "ok s1")
    case False
    then show ?thesis
      using assms d r
      by (simp add: SyncBackend_def Close_writer_def close_appends_split run_until_fail_append)
  next
    case True
    then have h: "w_bloomfilter_handle w1
        = \<lparr>h_offset = w_offset w, h_size = of_nat (length (w_bloomfilter w))\<rparr>"
      "w_index_handle w1
        = \<lparr>h_offset = w_offset w + of_nat (length (w_bloomfilter w)),
           h_size = of_nat (length (w_indexes w @ index_entry w))\<rparr>"
      using Dump_handles [of w] d by simp_all
    show ?thesis
      using assms d r True h
      by (simp add: SyncBackend_def Close_writer_def close_appends_split run_until_fail_append
          dst_call_eq wf_call_def Let_def ok_iff split: prod.splits)
  qed
qed

lemma r16: "replicate 16 (0::byte) = [0,0,0,0,0,0,0,0,0,0,0,0,0,0,0,0]"
  by (simp add: numeral_eq_Suc)

lemma alloc_bufs_2: "alloc_bufs 2 = ([[], []], [1])"
  by (simp add: alloc_bufs_eq numeral_2_eq_2)

lemma varint_small: "n < 128 \<Longrightarrow> varint n = [of_nat n]"
  by (simp add: varint.simps)

theorem SyncBackend_close_first_error_witness:
  "w_num_bg_compactions (new_BufferedBlockWriter default_options good_file 64 2) = 0
   \<and> map_option (\<lambda>(st, w'). (st, w_dst w'))
       (SyncBackend (new_BufferedBlockWriter default_options good_file 64 2) True)
     = Some (OK, good_file\<lparr>history :=
         [Append (replicate 16 0), Append ([0, 0, 0, 16] @ replicate 36 0), Sync, Close]\<rparr>)"
proof -
  let ?w = "new_BufferedBlockWriter default_options good_file 64 2"
  have z: "w_num_bg_compactions ?w = 0"
    by (simp add: new_BufferedBlockWriter_def alloc_bufs_2)
  from SyncBackend_close_first_error [OF z] show ?thesis
    by (simp add: z new_BufferedBlockWriter_def alloc_bufs_2 close_appends_def index_entry_def
        PutFixed64_0 EncodeTo_def PutVarint64_def varint_small kMaxEncodedLength_def resize_def
        good_file_def wf_call_def r16)
qed

text \<open>
  On a destination whose appends fail, the index stripe is the only thing handed to the
  file: the footer is not appended, and neither \<open>Sync\<close> nor \<open>Close\<close> is called.
\<close>

theorem Finish_stops_at_first_error_counterexample:
  "\<exists>w'. SyncBackend (new_BufferedBlockWriter default_options full_disk 64 2) True
          = Some (IOError ''No space left'' '''', w')
      \<and> history (w_dst w') = [Append (replicate 16 0)]
      \<and> Sync \<notin> set (history (w_dst w'))
      \<and> Close \<notin> set (history (w_dst w'))"
  by (simp add: new_BufferedBlockWriter_def alloc_bufs_2 SyncBackend_def Close_writer_def
      DumpIndexesAndFilters_def dst_call_eq full_disk_def PutFixed64_0 Let_def r16)

lemma length_PutFixed64: "length (PutFixed64 v) = 8"
  by (simp add: PutFixed64_def)

lemma Decode_Put: "DecodeFixed64 (PutFixed64 v @ rest) = v"
proof (rule bit_word_eqI)
  fix n
  assume "n < LENGTH(64)"
  then have n: "n < 64" by simp
  have e: "bit (DecodeFixed64 (PutFixed64 v @ rest)) n \<longleftrightarrow>
         (n < 8 \<and> bit v n \<or>
          8 \<le> n \<and> n - 8 < 64 \<and> n - 8 < 8 \<and> bit v (8 + (n - 8)) \<or>
          16 \<le> n \<and> n - 16 < 64 \<and> n - 16 < 8 \<and> bit v (16 + (n - 16)) \<or>
          24 \<le> n \<and> n - 24 < 64 \<and> n - 24 < 8 \<and> bit v (24 + (n - 24)) \<or>
          32 \<le> n \<and> n - 32 < 64 \<and> n - 32 < 8 \<and> bit v (32 + (n - 32)) \<or>
          40 \<le> n \<and> n - 40 < 64 \<and> n - 40 < 8 \<and> bit v (40 + (n - 40)) \<or>
          48 \<le> n \<and> n - 48 < 64 \<and> n - 48 < 8 \<and> bit v (48 + (n - 48)) \<or>
          56 \<le> n \<and> n - 56 < 64 \<and> n - 56 < 8 \<and> bit v (56 + (n - 56)))"
    using n by (simp add: PutFixed64_def DecodeFixed64_def upt8 bit_simps)
  from n consider "n < 8" | "8 \<le> n" "n < 16" | "16 \<le> n" "n < 24" | "24 \<le> n" "n < 32"
    | "32 \<le> n" "n < 40" | "40 \<le> n" "n < 48" | "48 \<le> n" "n < 56" | "56 \<le> n" "n < 64"
    by linarith
  then show "bit (DecodeFixed64 (PutFixed64 v @ rest)) n = bit v n"
    unfolding e by cases (simp_all add: less_diff_conv2 cong: conj_cong)
qed

lemma PutFixed64_inj: "PutFixed64 a = PutFixed64 b \<longleftrightarrow> a = b"
proof
  assume "PutFixed64 a = PutFixed64 b"
  then have "DecodeFixed64 (PutFixed64 a @ []) = DecodeFixed64 (PutFixed64 b @ [])" by simp
  then show "a = b" by (simp only: Decode_Put)
qed simp

lemma SyncBackend_indexes:
  assumes "SyncBackend w True = Some (st, w')"
  shows "w_indexes w' = w_indexes w @ index_entry w"
proof -
  obtain s1 w1 where d: "DumpIndexesAndFilters w = (s1, w1)"
    by (cases "DumpIndexesAndFilters w") auto
  then have "w_indexes w1 = w_indexes w @ index_entry w"
    using Dump_indexes [of w] by simp
  with assms d show ?thesis
    by (auto simp: SyncBackend_def Close_writer_def dst_call_eq Let_def
        split: if_splits prod.splits)
qed

lemma length_concat_entries: "length (concat (map index_entry vs)) = 16 * length vs"
  by (induction vs) (simp_all add: length_index_entry)

lemma sorted_emitting:
  "sorted (map f (map fst steps @ [y])) \<Longrightarrow> sorted (map f (emitting steps @ [y]))"
  by (induction steps) (auto simp: emitting_def)

lemma sorted_words_of_nats:
  assumes "sorted (map g (vs @ [y]))" and "g y < 2 ^ 64"
  shows "sorted (map (\<lambda>v. of_nat (g v) :: u64) (vs @ [y]))"
proof -
  have bound: "g v \<le> g y" if "v \<in> set (vs @ [y])" for v
    using assms(1) that by (auto simp: sorted_append)
  have "sorted_wrt (\<lambda>a b. g a \<le> g b) (vs @ [y])"
    using assms(1) by (simp only: sorted_map)
  then have "sorted_wrt (\<lambda>a b. (of_nat (g a) :: u64) \<le> of_nat (g b)) (vs @ [y])"
  proof (rule sorted_wrt_mono_rel [rotated])
    fix a b
    assume a: "a \<in> set (vs @ [y])" and b: "b \<in> set (vs @ [y])" and le: "g a \<le> g b"
    have "g a < 2 ^ 64" "g b < 2 ^ 64"
      using bound [OF a] bound [OF b] assms(2) by simp_all
    then have "unat (of_nat (g a) :: u64) = g a" "unat (of_nat (g b) :: u64) = g b"
      by (simp_all add: unat_of_nat)
    with le show "(of_nat (g a) :: u64) \<le> of_nat (g b)"
      by (simp add: word_le_nat_alt)
  qed
  then show ?thesis by (simp only: sorted_map)
qed

lemma plain_block_example:
  "block_finish plain_formats [([1], [2, 3])] = [1, 2, 1, 2, 3]"
  "block_parse plain_formats [1, 2, 1, 2, 3] = [([1], [2, 3])]"
  "bloom_finish plain_formats bits n [[1]] = [1]"
  by (simp_all add: plain_formats_def varint_small)

lemma one_record_run:
  "\<exists>w1. compactions plain_formats one_record_writer [0] = Some ([(one_record_writer, 0)], w1)
     \<and> w_indexes w1 = PutFixed64 0 @ PutFixed64 0
     \<and> w_bloomfilter w1 = [1]
     \<and> w_offset w1 = 5
     \<and> history (w_dst w1) = [Append [1, 2, 1, 2, 3], Flush]
     \<and> w_num_bg_compactions w1 = 0"
  by (simp add: one_record_writer_def new_BufferedBlockWriter_def alloc_bufs_2 default_options_def
      DoCompaction_def Compact_def plain_block_example Let_def dst_call_eq good_file_def)
lemma one_record_writer_by_Add:
  "Add plain_formats (new_BufferedBlockWriter default_options good_file 64 2) [1] [2, 3]
     = Some (OK, one_record_writer)"
  by (simp add: Add_def one_record_writer_def new_BufferedBlockWriter_def alloc_bufs_2
      plain_formats_def varint_small)

lemma SyncBackend_returns:
  "w_num_bg_compactions w = 0 \<Longrightarrow> \<exists>st w'. SyncBackend w True = Some (st, w')"
  by (simp add: SyncBackend_def Close_writer_def Let_def split: prod.splits)

text \<open>
  After one record is added and its buffer compacted, the stripe holds the entry (0, 0):
  the offsets at which the block and its filter start. The filter stream then ends at 1
  and the block at 5.
\<close>

theorem index_entry_is_start_offset_counterexample:
  "\<exists>w1. compactions plain_formats one_record_writer [0] = Some ([(one_record_writer, 0)], w1)
     \<and> w_indexes w1 = PutFixed64 0 @ PutFixed64 0
     \<and> w_bloomfilter w1 = [1]
     \<and> w_offset w1 = 5
     \<and> index_entry w1 = PutFixed64 1 @ PutFixed64 5
     \<and> w_indexes w1 \<noteq> index_entry w1"
proof -
  from one_record_run obtain w1 where
    c: "compactions plain_formats one_record_writer [0] = Some ([(one_record_writer, 0)], w1)"
    and f: "w_indexes w1 = PutFixed64 0 @ PutFixed64 0" "w_bloomfilter w1 = [1]" "w_offset w1 = 5"
    by blast
  have e: "index_entry w1 = PutFixed64 1 @ PutFixed64 5"
    by (simp add: index_entry_def f)
  have "PutFixed64 0 @ PutFixed64 0 \<noteq> PutFixed64 1 @ PutFixed64 5"
    by (simp add: length_PutFixed64 PutFixed64_inj)
  with c f e show ?thesis by auto
qed

section \<open>The streams of the writer on a destination that accepts every call\<close>

lemma offs_nonempty: "offs fm opts f d bl \<noteq> []"
  by (cases bl) simp_all

lemma offs_last:
  "last (offs fm opts f d bl) = (f + length (filters_of fm opts bl), d + length (data_of fm bl))"
  by (induction bl arbitrary: f d) (auto simp: filters_of_def data_of_def offs_nonempty)

lemma offs_snoc:
  "butlast (offs fm opts f d (bl @ [b])) = offs fm opts f d bl"
  by (induction bl arbitrary: f d) (auto simp: offs_nonempty)

lemma enc_entries_append: "enc_entries (ps @ qs) = enc_entries ps @ enc_entries qs"
  by (simp add: enc_entries_def)

lemma offs_butlast_last:
  "offs fm opts f d bl = butlast (offs fm opts f d bl)
     @ [(f + length (filters_of fm opts bl), d + length (data_of fm bl))]"
  using append_butlast_last_id [OF offs_nonempty, of fm opts f d bl]
  by (simp add: offs_last)

lemma enc_offs:
  "enc_entries (offs fm opts 0 0 bl) = enc_entries (butlast (offs fm opts 0 0 bl))
     @ PutFixed64 (of_nat (length (filters_of fm opts bl)))
     @ PutFixed64 (of_nat (length (data_of fm bl)))"
  by (subst offs_butlast_last) (simp add: enc_entries_def)

lemma Compact_good:
  assumes "behaviour (w_dst w) = (\<lambda>h c. OK)" and "w_bbs w ! i = b" and "b \<noteq> []"
    and "w_num_compac_completed w < w_num_compac_completed w + 1"
  shows "\<exists>w1. Compact fm w (w_num_compac_completed w + 1) i = Some (OK, w1)
           \<and> w_indexes w1 = w_indexes w @ index_entry w
           \<and> w_bloomfilter w1 = w_bloomfilter w @ filter_of fm (w_options w) b
           \<and> w_offset w1 = w_offset w + of_nat (length (block_finish fm b))
           \<and> appended (history (w_dst w1)) = appended (history (w_dst w)) @ block_finish fm b
           \<and> same_bookkeeping w w1"
  using assms
  by (simp add: Compact_def Let_def dst_call_eq index_entry_def filter_of_def
      same_bookkeeping_def appended_append)

lemma ticket_less:
  assumes "n + 1 < 2 ^ 32"
  shows "(of_nat n :: u32) < of_nat n + 1"
proof -
  have a: "unat (of_nat n :: u32) = n"
    using assms by (simp add: unat_of_nat)
  have b: "unat (of_nat (n + 1) :: u32) = n + 1"
    using assms by (simp only: unat_of_nat) simp
  have "(of_nat n :: u32) < of_nat (n + 1)"
    by (simp only: word_less_nat_alt a b)
  then show ?thesis by (simp add: add.commute)
qed

lemma data_of_snoc: "data_of fm (bl @ [b]) = data_of fm bl @ block_finish fm b"
  by (simp add: data_of_def)

lemma filters_of_snoc: "filters_of fm opts (bl @ [b]) = filters_of fm opts bl @ filter_of fm opts b"
  by (simp add: filters_of_def)

lemma RotateBuffer_good:
  assumes inv: "winv fm opts w bl cur" and cur: "cur \<noteq> []" and n: "length bl + 1 < 2 ^ 32"
  shows "\<exists>w'. RotateBuffer fm w = Some w' \<and> winv fm opts w' (bl @ [cur]) []"
proof -
  from inv obtain b rest where bufs: "w_bufs w = b # rest"
    by (cases "w_bufs w") (auto simp: winv_def)
  let ?im = "w_membuf w"
  let ?w1 = "w\<lparr>w_num_compac_scheduled := w_num_compac_scheduled w + 1, w_membuf := b,
               w_bufs := rest, w_num_bg_compactions := w_num_bg_compactions w + 1\<rparr>"
  have t: "w_num_compac_scheduled w + 1 = w_num_compac_completed ?w1 + 1"
    using inv by (simp add: winv_def)
  have c1: "behaviour (w_dst ?w1) = (\<lambda>h c. OK)" "w_bbs ?w1 ! ?im = cur"
    using inv by (simp_all add: winv_def)
  have c2: "w_num_compac_completed ?w1 < w_num_compac_completed ?w1 + 1"
    using inv ticket_less [OF n] by (simp add: winv_def)
  from Compact_good [OF c1 cur c2, of fm] obtain w2 where
    c: "Compact fm ?w1 (w_num_compac_completed ?w1 + 1) ?im = Some (OK, w2)" and
    i: "w_indexes w2 = w_indexes ?w1 @ index_entry ?w1" and
    f: "w_bloomfilter w2 = w_bloomfilter ?w1 @ filter_of fm (w_options ?w1) cur" and
    o: "w_offset w2 = w_offset ?w1 + of_nat (length (block_finish fm cur))" and
    h: "appended (history (w_dst w2)) = appended (history (w_dst ?w1)) @ block_finish fm cur" and
    s: "same_bookkeeping ?w1 w2"
    by blast
  let ?w' = "w2\<lparr>w_bg_status := w_bg_status w2,
               w_num_compac_completed := w_num_compac_completed ?w1 + 1,
               w_bbs := (w_bbs w2)[?im := []],
               w_bufs := w_bufs w2 @ [?im],
               w_num_bg_compactions := w_num_bg_compactions w2 - 1\<rparr>"
  have r: "RotateBuffer fm w = Some ?w'"
    using inv c t
    by (simp add: RotateBuffer_def bufs ScheduleCompaction_def DoCompaction_def winv_def Let_def)
  have idx: "w_indexes ?w' = enc_entries (butlast (offs fm opts 0 0 (bl @ [cur])))"
    using inv i by (simp add: winv_def index_entry_def offs_snoc enc_offs)
  have bk: "w_options w2 = opts" "behaviour (w_dst w2) = (\<lambda>h c. OK)"
    "w_bbs w2 = w_bbs w" "w_bufs w2 = rest" "w_membuf w2 = b" "w_num_bg_compactions w2 = 1"
    "w_bg_status w2 = w_bg_status w" "w_finished w2 = w_finished w"
    "w_num_compac_scheduled w2 = of_nat (length bl) + 1"
    using inv s by (simp_all add: winv_def same_bookkeeping_def)
  have pool: "b < length (w_bbs w)" "w_bbs w ! b = []" "b \<noteq> ?im" "b \<notin> set rest"
    "distinct rest" "?im \<notin> set rest" "?im < length (w_bbs w)"
    "\<forall>i \<in> set rest. i < length (w_bbs w) \<and> w_bbs w ! i = []"
    using inv bufs by (auto simp: winv_def)
  have "winv fm opts ?w' (bl @ [cur]) []"
    unfolding winv_def
    using inv idx f o h bk pool cur
    by (auto simp: winv_def data_of_snoc filters_of_snoc nth_list_update)
  with r show ?thesis by blast
qed

lemma Add_good:
  assumes inv: "winv fm opts w bl cur" and n: "length bl + 1 < 2 ^ 32"
  shows "\<exists>w' bl' cur'. Add fm w k v = Some (OK, w') \<and> winv fm opts w' bl' cur'
           \<and> concat bl' @ cur' = concat bl @ cur @ [(k, v)]
           \<and> length bl' \<le> length bl + 1"
proof -
  let ?w1 = "w\<lparr>w_bbs := (w_bbs w)[w_membuf w := w_bbs w ! w_membuf w @ [(k, v)]]\<rparr>"
  have inv1: "winv fm opts ?w1 bl (cur @ [(k, v)])"
    using inv by (auto simp: winv_def nth_list_update)
  have okbg: "ok (w_bg_status w)" using inv by (simp add: winv_def)
  show ?thesis
  proof (cases "buf_full fm (w_buf_threshold ?w1) (w_bbs ?w1 ! w_membuf ?w1)")
    case False
    with okbg have "Add fm w k v = Some (OK, ?w1)"
      by (simp add: Add_def Let_def)
    with inv1 show ?thesis by fastforce
  next
    case True
    from RotateBuffer_good [OF inv1 _ n] obtain w' where
      r: "RotateBuffer fm ?w1 = Some w'" and i: "winv fm opts w' (bl @ [cur @ [(k, v)]]) []"
      by auto
    from True okbg r have "Add fm w k v = Some (OK, w')"
      by (simp add: Add_def Let_def)
    with i show ?thesis by fastforce
  qed
qed

lemma Flush_good:
  assumes inv: "winv fm opts w bl cur" and n: "length bl + 1 < 2 ^ 32"
  shows "\<exists>w' bl' cur'. Flush_writer fm w = Some (OK, w') \<and> winv fm opts w' bl' cur'
           \<and> concat bl' @ cur' = concat bl @ cur
           \<and> length bl' \<le> length bl + 1"
proof -
  have okbg: "ok (w_bg_status w)" and m: "w_bbs w ! w_membuf w = cur"
    using inv by (simp_all add: winv_def)
  show ?thesis
  proof (cases "cur = []")
    case True
    with okbg m have "Flush_writer fm w = Some (OK, w)"
      by (simp add: Flush_writer_def)
    with inv show ?thesis by fastforce
  next
    case False
    from RotateBuffer_good [OF inv False n] obtain w' where
      r: "RotateBuffer fm w = Some w'" and i: "winv fm opts w' (bl @ [cur]) []"
      by auto
    from False okbg m r have "Flush_writer fm w = Some (OK, w')"
      by (simp add: Flush_writer_def)
    with i show ?thesis by fastforce
  qed
qed

lemma run_ops_good:
  assumes "winv fm opts w bl cur" and "length bl + length ops < 2 ^ 32"
  shows "\<exists>w' bl' cur'. run_ops fm w ops = Some w' \<and> winv fm opts w' bl' cur'
           \<and> concat bl' @ cur' = concat bl @ cur @ records ops
           \<and> length bl' \<le> length bl + length ops"
  using assms
proof (induction ops arbitrary: w bl cur)
  case Nil
  then show ?case by fastforce
next
  case (Cons c ops)
  have n: "length bl + 1 < 2 ^ 32" using Cons.prems(2) by simp
  have "\<exists>w1 bl1 cur1. run_op fm w c = Some (OK, w1) \<and> winv fm opts w1 bl1 cur1
           \<and> concat bl1 @ cur1 = concat bl @ cur @ records [c]
           \<and> length bl1 \<le> length bl + 1"
  proof (cases c)
    case (OpAdd k v)
    with Add_good [OF Cons.prems(1) n, of k v] show ?thesis by simp
  next
    case OpFlush
    with Flush_good [OF Cons.prems(1) n] show ?thesis by simp
  qed
  then obtain w1 bl1 cur1 where
    s: "run_op fm w c = Some (OK, w1)" and i: "winv fm opts w1 bl1 cur1" and
    e: "concat bl1 @ cur1 = concat bl @ cur @ records [c]" and
    l: "length bl1 \<le> length bl + 1"
    by blast
  have "length bl1 + length ops < 2 ^ 32" using l Cons.prems(2) by simp
  from Cons.IH [OF i this] obtain w' bl' cur' where
    r: "run_ops fm w1 ops = Some w'" and i': "winv fm opts w' bl' cur'" and
    e': "concat bl' @ cur' = concat bl1 @ cur1 @ records ops" and
    l': "length bl' \<le> length bl1 + length ops"
    by blast
  have rc: "records (c # ops) = records [c] @ records ops"
    by (cases c) simp_all
  have "concat bl' @ cur' = concat bl @ cur @ records (c # ops)"
    using e e' by (simp add: rc)
  moreover have "run_ops fm w (c # ops) = Some w'" using s r by simp
  moreover have "length bl' \<le> length bl + length (c # ops)" using l l' by simp
  ultimately show ?case using i' by blast
qed

lemma new_writer_winv:
  assumes "\<not> compaction_pool opts" and "\<not> allow_env_threads opts"
  shows "winv fm opts (new_BufferedBlockWriter opts good_file buf_size n) [] []"
proof -
  have m: "(if n < 2 then 2 else n) = max n 2" by simp
  have "[1..<max n 2] \<noteq> []" by simp
  then show ?thesis
    using assms
    unfolding new_BufferedBlockWriter_def m alloc_bufs_eq Let_def
    by (simp add: winv_def good_file_def data_of_def filters_of_def enc_entries_def)
qed

lemma run_until_fail_good:
  "behaviour f = (\<lambda>h c. OK) \<Longrightarrow> run_until_fail f cs = (OK, f\<lparr>history := history f @ cs\<rparr>)"
  by (induction cs arbitrary: f) (simp_all add: wf_call_def)

lemma getvar_varint:
  "n < 2 ^ (64 - shift) \<Longrightarrow> shift \<le> 63 \<Longrightarrow>
     getvar shift (varint n @ rest) = Some (n * 2 ^ shift, rest)"
proof (induction n arbitrary: shift rule: varint.induct)
  case (1 n)
  show ?case
  proof (cases "n < 128")
    case True
    then have "unat (of_nat n :: byte) = n" by (simp add: unat_of_nat)
    with True 1(3) show ?thesis by (subst varint.simps) simp
  next
    case False
    have lt: "n mod 128 + 128 < 2 ^ LENGTH(8)"
    proof -
      have "n mod 128 < 128" by simp
      then show ?thesis by simp
    qed
    have b: "unat (of_nat (n mod 128 + 128) :: byte) = n mod 128 + 128"
      using lt by (simp only: unat_of_nat mod_less)
    have sh: "shift + 7 \<le> 63" "n div 128 < 2 ^ (64 - (shift + 7))"
    proof -
      have "\<not> shift + 7 > 63"
      proof
        assume "shift + 7 > 63"
        then have "64 - shift \<le> 7" by simp
        then have "(2::nat) ^ (64 - shift) \<le> 2 ^ 7" by (rule power_increasing) simp
        with 1(2) False show False by simp
      qed
      then show "shift + 7 \<le> 63" by simp
      then have e: "64 - shift = 7 + (64 - (shift + 7))" by simp
      have "n < 2 ^ 7 * 2 ^ (64 - (shift + 7))"
        using 1(2) by (subst (asm) e) (simp only: power_add)
      then show "n div 128 < 2 ^ (64 - (shift + 7))"
        by (simp add: less_mult_imp_div_less mult.commute)
    qed
    from 1(1) [OF False sh(2) sh(1)]
    have ih: "getvar (shift + 7) (varint (n div 128) @ rest)
                = Some (n div 128 * 2 ^ (shift + 7), rest)" .
    have "n mod 128 * 2 ^ shift + n div 128 * 2 ^ (shift + 7) = n * 2 ^ shift"
    proof -
      have p: "(2::nat) ^ (shift + 7) = 128 * 2 ^ shift" by (simp add: power_add)
      have "n * 2 ^ shift = (n mod 128 + n div 128 * 128) * 2 ^ shift" by simp
      also have "\<dots> = n mod 128 * 2 ^ shift + n div 128 * (128 * 2 ^ shift)"
        by (simp only: add_mult_distrib mult.assoc)
      finally show ?thesis by (simp only: p)
    qed
    with False b ih 1(3) show ?thesis
      by (subst varint.simps) simp
  qed
qed

lemma GetVarint64_PutVarint64: "GetVarint64 (PutVarint64 v @ rest) = Some (v, rest)"
proof -
  have "unat v < 2 ^ (64 - 0)" using unsigned_less [of v, where ?'a = nat] by simp
  from getvar_varint [OF this, of rest] show ?thesis
    by (simp add: GetVarint64_def PutVarint64_def)
qed

lemma DecodeFrom_EncodeTo: "DecodeFrom (EncodeTo h @ rest) = Inr (h, rest)"
  by (simp add: DecodeFrom_def EncodeTo_def GetVarint64_PutVarint64)

lemma length_varint: "0 < k \<Longrightarrow> n < 2 ^ (7 * k) \<Longrightarrow> length (varint n) \<le> k"
proof (induction n arbitrary: k rule: varint.induct)
  case (1 n)
  show ?case
  proof (cases "n < 128")
    case True
    with 1(2) show ?thesis by (subst varint.simps) simp
  next
    case False
    have k: "1 < k"
    proof (rule ccontr)
      assume "\<not> 1 < k"
      with 1(2) have "k = 1" by simp
      with 1(3) False show False by simp
    qed
    then have e: "7 * k = 7 + 7 * (k - 1)" by simp
    have "n < 2 ^ 7 * 2 ^ (7 * (k - 1))"
      using 1(3) by (subst (asm) e) (simp only: power_add)
    then have "n div 128 < 2 ^ (7 * (k - 1))"
      by (simp add: less_mult_imp_div_less mult.commute)
    from 1(1) [OF False _ this] k have "length (varint (n div 128)) \<le> k - 1" by simp
    with False k show ?thesis by (subst varint.simps) simp
  qed
qed

lemma length_PutVarint64: "length (PutVarint64 v) \<le> 10"
proof -
  have "unat v < 2 ^ 64" using unsigned_less [of v, where ?'a = nat] by simp
  also have "(2::nat) ^ 64 \<le> 2 ^ (7 * 10)" by simp
  finally show ?thesis
    unfolding PutVarint64_def by (intro length_varint) simp_all
qed

lemma length_EncodeTo: "length (EncodeTo h) \<le> 20"
  using length_PutVarint64 [of "h_offset h"] length_PutVarint64 [of "h_size h"]
  by (simp add: EncodeTo_def)

lemma footer_of_facts:
  "length (footer_of d f i) = 40"
  "\<exists>pad. footer_of d f i =
     (EncodeTo \<lparr>h_offset = of_nat d, h_size = of_nat f\<rparr>
      @ EncodeTo \<lparr>h_offset = of_nat d + of_nat f, h_size = of_nat i\<rparr>) @ pad"
proof -
  let ?e = "EncodeTo \<lparr>h_offset = of_nat d, h_size = of_nat f\<rparr>
     @ EncodeTo \<lparr>h_offset = of_nat d + of_nat f, h_size = of_nat i\<rparr>"
  have l: "length ?e \<le> 40"
    using length_EncodeTo [of "\<lparr>h_offset = of_nat d, h_size = of_nat f\<rparr>"]
      length_EncodeTo [of "\<lparr>h_offset = of_nat d + of_nat f, h_size = of_nat i\<rparr>"]
    by simp
  then show "length (footer_of d f i) = 40"
    by (simp add: footer_of_def resize_def kMaxEncodedLength_def)
  from l show "\<exists>pad. footer_of d f i = ?e @ pad"
    by (simp add: footer_of_def resize_def kMaxEncodedLength_def)
qed

lemma length_enc_entries: "length (enc_entries ps) = 16 * length ps"
  by (induction ps) (auto simp: enc_entries_def length_PutFixed64)

lemma length_offs: "length (offs fm opts f d bl) = length bl + 1"
  by (induction bl arbitrary: f d) simp_all

lemma SyncBackend_close_calls:
  assumes "w_num_bg_compactions w = 0" and "SyncBackend w True = Some (st, w')"
  shows "(st, w_dst w') =
         (let (st1, f1) = run_until_fail (w_dst w) (close_appends w) in
          if ok st1 then (let (st2, f2) = wf_call f1 Sync in (st2, snd (wf_call f2 Close)))
          else (st1, f1))"
proof -
  obtain s1 w1 where d: "DumpIndexesAndFilters w = (s1, w1)"
    by (cases "DumpIndexesAndFilters w") auto
  have r: "run_until_fail (w_dst w) (dump_appends w) = (s1, w_dst w1)"
    using Dump_dst [of w] d by simp
  show ?thesis
  proof (cases "ok s1")
    case False
    then show ?thesis
      using assms d r
      by (simp add: SyncBackend_def Close_writer_def close_appends_split run_until_fail_append)
  next
    case True
    then have h: "w_bloomfilter_handle w1
        = \<lparr>h_offset = w_offset w, h_size = of_nat (length (w_bloomfilter w))\<rparr>"
      "w_index_handle w1
        = \<lparr>h_offset = w_offset w + of_nat (length (w_bloomfilter w)),
           h_size = of_nat (length (w_indexes w @ index_entry w))\<rparr>"
      using Dump_handles [of w] d by simp_all
    show ?thesis
      using assms d r True h
      by (auto simp: SyncBackend_def Close_writer_def close_appends_split run_until_fail_append
          dst_call_eq wf_call_def Let_def ok_iff split: prod.splits)
  qed
qed

lemma word32_less_succ:
  assumes "unat (c :: u32) + 1 < 2 ^ 32"
  shows "c < c + 1"
proof -
  from ticket_less [OF assms] show ?thesis by simp
qed

lemma unat_succ32:
  assumes "unat (c :: u32) + 1 < 2 ^ 32"
  shows "unat (c + 1) = unat c + 1"
  using assms by (simp add: unat_word_ariths)

lemma winv_streams_hold: "winv fm opts w bl cur \<Longrightarrow> streams_hold fm opts w bl"
  by (simp add: winv_def streams_hold_def)

lemma DoCompaction_good:
  assumes inv: "streams_hold fm opts w bl"
    and n: "unat (w_num_compac_completed w) + 1 < 2 ^ 32"
  shows "\<exists>w1. DoCompaction fm (w\<lparr>w_num_bg_compactions := w_num_bg_compactions w + 1\<rparr>)
                 (w_num_compac_completed w + 1) i = Some w1
           \<and> streams_hold fm opts w1 (bl @ emitted [(w, i)])
           \<and> w_num_compac_completed w1 = w_num_compac_completed w + 1
           \<and> length (w_bbs w1) = length (w_bbs w)"
proof (cases "w_bbs w ! i = []")
  case True
  let ?w = "w\<lparr>w_num_bg_compactions := w_num_bg_compactions w + 1\<rparr>"
  have "Compact fm ?w (w_num_compac_completed w + 1) i = Some (OK, ?w)"
    using Compact_skip [of ?w i fm] True by simp
  with inv True show ?thesis
    by (simp add: DoCompaction_def streams_hold_def emitted_def)
next
  case False
  let ?w = "w\<lparr>w_num_bg_compactions := w_num_bg_compactions w + 1\<rparr>"
  let ?b = "w_bbs w ! i"
  have c1: "behaviour (w_dst ?w) = (\<lambda>h c. OK)" "w_bbs ?w ! i = ?b"
    using inv by (simp_all add: streams_hold_def)
  have c2: "w_num_compac_completed ?w < w_num_compac_completed ?w + 1"
    using word32_less_succ [OF n] by simp
  from Compact_good [OF c1 False c2, of fm] obtain w2 where
    c: "Compact fm ?w (w_num_compac_completed w + 1) i = Some (OK, w2)" and
    ix: "w_indexes w2 = w_indexes ?w @ index_entry ?w" and
    f: "w_bloomfilter w2 = w_bloomfilter ?w @ filter_of fm (w_options ?w) ?b" and
    o: "w_offset w2 = w_offset ?w + of_nat (length (block_finish fm ?b))" and
    h: "appended (history (w_dst w2)) = appended (history (w_dst ?w)) @ block_finish fm ?b" and
    s: "same_bookkeeping ?w w2"
    by auto
  have idx: "w_indexes w2 = enc_entries (butlast (offs fm opts 0 0 (bl @ [?b])))"
    using inv ix by (simp add: streams_hold_def index_entry_def offs_snoc enc_offs)
  have bk: "w_options w2 = opts" "behaviour (w_dst w2) = (\<lambda>h c. OK)"
    "w_num_bg_compactions w2 = 1" "w_bbs w2 = w_bbs w"
    using inv s by (simp_all add: streams_hold_def same_bookkeeping_def)
  have e: "emitted [(w, i)] = [?b]" using False by (simp add: emitted_def)
  from c inv idx f o h bk show ?thesis
    unfolding e
    by (simp add: DoCompaction_def streams_hold_def data_of_snoc filters_of_snoc)
qed

lemma emitted_Cons: "emitted (s # steps) = emitted [s] @ emitted steps"
  by (simp add: emitted_def)

lemma compactions_good:
  assumes "streams_hold fm opts w bl"
    and "unat (w_num_compac_completed w) + length is < 2 ^ 32"
  shows "\<exists>steps w1. compactions fm w is = Some (steps, w1) \<and> map snd steps = is
           \<and> streams_hold fm opts w1 (bl @ emitted steps)"
  using assms
proof (induction "is" arbitrary: w bl)
  case Nil
  then show ?case by (simp add: emitted_def)
next
  case (Cons i "is")
  have n: "unat (w_num_compac_completed w) + 1 < 2 ^ 32" using Cons.prems(2) by simp
  from DoCompaction_good [OF Cons.prems(1) n, of i] obtain wa where
    d: "DoCompaction fm (w\<lparr>w_num_bg_compactions := w_num_bg_compactions w + 1\<rparr>)
          (w_num_compac_completed w + 1) i = Some wa" and
    sa: "streams_hold fm opts wa (bl @ emitted [(w, i)])" and
    ca: "w_num_compac_completed wa = w_num_compac_completed w + 1"
    by blast
  have "unat (w_num_compac_completed wa) + length is < 2 ^ 32"
    using Cons.prems(2) by (simp add: ca unat_succ32 [OF n])
  from Cons.IH [OF sa this] obtain steps w1 where
    r: "compactions fm wa is = Some (steps, w1)" and m: "map snd steps = is" and
    s1: "streams_hold fm opts w1 ((bl @ emitted [(w, i)]) @ emitted steps)"
    by blast
  have "compactions fm w (i # is) = Some ((w, i) # steps, w1)"
    using d r by simp
  moreover have "streams_hold fm opts w1 (bl @ emitted ((w, i) # steps))"
    using s1 by (subst emitted_Cons) simp
  ultimately show ?case using m by fastforce
qed

lemma SyncBackend_streams:
  assumes inv: "streams_hold fm opts w bl"
  shows "\<exists>w'. SyncBackend w True = Some (OK, w')
           \<and> w_indexes w' = enc_entries (offs fm opts 0 0 bl)
           \<and> appended (history (w_dst w')) = file_of fm opts bl"
proof -
  have z: "w_num_bg_compactions w = 0" and b: "behaviour (w_dst w) = (\<lambda>h c. OK)"
    using inv by (simp_all add: streams_hold_def)
  have idx: "w_indexes w @ index_entry w = enc_entries (offs fm opts 0 0 bl)"
    using inv by (simp add: streams_hold_def index_entry_def enc_offs)
  have ca: "appended (close_appends w)
      = filters_of fm opts bl @ enc_entries (offs fm opts 0 0 bl)
        @ footer_of (length (data_of fm bl)) (length (filters_of fm opts bl))
            (length (enc_entries (offs fm opts 0 0 bl)))"
    unfolding close_appends_def Let_def idx
    using inv by (simp add: streams_hold_def footer_of_def)
  from SyncBackend_returns [OF z]
  obtain st w' where s: "SyncBackend w True = Some (st, w')"
    by blast
  from SyncBackend_close_calls [OF z s]
  have e: "(st, w_dst w') =
         (let (st1, f1) = run_until_fail (w_dst w) (close_appends w) in
          if ok st1 then (let (st2, f2) = wf_call f1 Sync in (st2, snd (wf_call f2 Close)))
          else (st1, f1))" .
  from e have "st = OK"
    and "history (w_dst w') = history (w_dst w) @ close_appends w @ [Sync, Close]"
    by (simp_all add: run_until_fail_good [OF b] wf_call_def b)
  then have "st = OK" and "appended (history (w_dst w')) = file_of fm opts bl"
    using inv ca by (simp_all add: appended_append streams_hold_def file_of_def)
  with s SyncBackend_indexes [OF s] idx show ?thesis by auto
qed

lemma offs_closed:
  "offs fm opts f d bl =
     map (\<lambda>i. (f + length (filters_of fm opts (take i bl)), d + length (data_of fm (take i bl))))
       [0..<length bl + 1]"
proof (induction bl arbitrary: f d)
  case Nil
  show ?case by (simp add: filters_of_def data_of_def)
next
  case (Cons b bl)
  have u: "[0..<length (b # bl) + 1] = 0 # map Suc [0..<length bl + 1]"
    by (simp add: map_Suc_upt upt_conv_Cons del: upt_Suc)
  show ?case
    unfolding u by (simp add: Cons.IH filters_of_def data_of_def o_def)
qed

lemma enc_offs_closed: "enc_entries (offs fm opts 0 0 bl) = index_stripe_of fm opts bl"
  by (simp add: offs_closed enc_entries_def index_stripe_of_def o_def)

lemma length_index_stripe_of: "length (index_stripe_of fm opts bl) = 16 * (length bl + 1)"
  using length_enc_entries [of "offs fm opts 0 0 bl"]
  by (simp add: enc_offs_closed length_offs)

lemma length_concat_take_mono:
  "i \<le> j \<Longrightarrow> length (concat (map g (take i bl))) \<le> length (concat (map g (take j bl)))"
proof -
  assume "i \<le> j"
  then have "take j bl = take i bl @ take (j - i) (drop i bl)"
    by (metis le_add_diff_inverse take_add)
  then show ?thesis by simp
qed

lemma sorted_prefix_sizes:
  assumes "length (concat (map g bl)) < 2 ^ 64"
  shows "sorted (map (\<lambda>i. of_nat (length (concat (map g (take i bl)))) :: u64) [0..<length bl + 1])"
proof -
  have "sorted_wrt (\<lambda>a b. length (concat (map g (take a bl))) \<le> length (concat (map g (take b bl))))
          [0..<length bl + 1]"
    by (rule sorted_wrt_mono_rel [OF _ sorted_upt]) (simp add: length_concat_take_mono)
  then have "sorted (map (\<lambda>i. length (concat (map g (take i bl)))) ([0..<length bl] @ [length bl]))"
    by (simp only: sorted_map) simp
  then have "sorted (map (\<lambda>i. of_nat (length (concat (map g (take i bl)))) :: u64)
                ([0..<length bl] @ [length bl]))"
    by (rule sorted_words_of_nats) (use assms in simp)
  then show ?thesis by simp
qed

lemma SyncBackend_good:
  assumes inv: "winv fm opts w bl cur"
  shows "\<exists>w'. SyncBackend w True = Some (OK, w')
           \<and> appended (history (w_dst w')) = file_of fm opts bl"
  using SyncBackend_streams [OF winv_streams_hold [OF inv]] by blast

lemma Finish_good:
  assumes inv: "winv fm opts w bl cur" and n: "length bl + 1 < 2 ^ 32"
  shows "\<exists>w' bl'. Finish fm w = Some (OK, w')
           \<and> appended (history (w_dst w')) = file_of fm opts bl'
           \<and> concat bl' = concat bl @ cur \<and> [] \<notin> set bl'"
proof -
  have nf: "\<not> w_finished w" and m: "w_bbs w ! w_membuf w = cur"
    using inv by (simp_all add: winv_def)
  have "\<exists>w1 bl1 cur1. (if cur \<noteq> [] then RotateBuffer fm w else Some w) = Some w1
          \<and> winv fm opts w1 bl1 cur1 \<and> concat bl1 = concat bl @ cur"
  proof (cases "cur = []")
    case True
    with inv show ?thesis by auto
  next
    case False
    from RotateBuffer_good [OF inv False n] False show ?thesis by fastforce
  qed
  then obtain w1 bl1 cur1 where
    r: "(if cur \<noteq> [] then RotateBuffer fm w else Some w) = Some w1" and
    i: "winv fm opts w1 bl1 cur1" and c: "concat bl1 = concat bl @ cur"
    by blast
  from SyncBackend_good [OF i] obtain w2 where
    s: "SyncBackend w1 True = Some (OK, w2)" and
    f: "appended (history (w_dst w2)) = file_of fm opts bl1"
    by blast
  have okbg: "ok (w_bg_status w1)" and e: "[] \<notin> set bl1"
    using i by (simp_all add: winv_def)
  have "Finish fm w = Some (OK, w2\<lparr>w_finished := True, w_finish_status := OK\<rparr>)"
    using nf m r s okbg by (simp add: Finish_def)
  with f c e show ?thesis by fastforce
qed

text \<open>
  C2 (amended). Take a writer whose streams are empty, on a destination that accepts
  every call, and any sequence of compactions in ticket order followed by \<open>Close\<close>, with
  fewer than \<open>2^32\<close> tickets. All of them return. Every compaction of a buffer that holds
  records emits one block and adds exactly one entry to the index stripe, two
  little-endian 64-bit integers: the size of the filters and the size of the data of the
  blocks emitted before it, which is where its filter begins in the filter stream and
  where the block begins in the file (not where they end; the first entry is (0, 0));
  a compaction of an empty buffer adds nothing. \<open>Close\<close> adds one more entry with the
  final sizes, so \<open>n\<close> blocks give \<open>n + 1\<close> entries and entry \<open>i + 1\<close> is where block \<open>i\<close>
  and its filter end. The file is the blocks, then the filters, then this stripe, then
  the footer. Each component never decreases along the stripe as long as the filter
  stream, respectively the data, stays below \<open>2^64\<close> bytes.
\<close>

theorem index_stripe_start_offsets:
  assumes "behaviour (w_dst w) = (\<lambda>h c. OK)"
    and "w_indexes w = []" and "w_bloomfilter w = []" and "w_offset w = 0"
    and "appended (history (w_dst w)) = []"
    and "w_num_bg_compactions w = 0"
    and "unat (w_num_compac_completed w) + length is < 2 ^ 32"
  shows "\<exists>steps w1 w2.
      compactions fm w is = Some (steps, w1) \<and> map snd steps = is
    \<and> SyncBackend w1 True = Some (OK, w2)
    \<and> w_indexes w2 =
        concat (map (\<lambda>i. PutFixed64 (of_nat (length (filters_of fm (w_options w)
                                                     (take i (emitted steps)))))
                         @ PutFixed64 (of_nat (length (data_of fm (take i (emitted steps))))))
                  [0..<length (emitted steps) + 1])
    \<and> length (w_indexes w2) = 16 * (length (emitted steps) + 1)
    \<and> appended (history (w_dst w2)) =
        data_of fm (emitted steps) @ filters_of fm (w_options w) (emitted steps)
        @ w_indexes w2
        @ footer_of (length (data_of fm (emitted steps)))
            (length (filters_of fm (w_options w) (emitted steps))) (length (w_indexes w2))
    \<and> (length (filters_of fm (w_options w) (emitted steps)) < 2 ^ 64 \<longrightarrow>
         sorted (map (\<lambda>i. of_nat (length (filters_of fm (w_options w) (take i (emitted steps))))
                          :: u64)
                   [0..<length (emitted steps) + 1]))
    \<and> (length (data_of fm (emitted steps)) < 2 ^ 64 \<longrightarrow>
         sorted (map (\<lambda>i. of_nat (length (data_of fm (take i (emitted steps)))) :: u64)
                   [0..<length (emitted steps) + 1]))"
proof -
  let ?opts = "w_options w"
  have s0: "streams_hold fm ?opts w []"
    using assms(1-6)
    by (simp add: streams_hold_def data_of_def filters_of_def enc_entries_def)
  from compactions_good [OF s0 assms(7)] obtain steps w1 where
    c: "compactions fm w is = Some (steps, w1)" and m: "map snd steps = is" and
    s1: "streams_hold fm ?opts w1 (emitted steps)"
    by auto
  let ?bl = "emitted steps"
  from SyncBackend_streams [OF s1] obtain w2 where
    s: "SyncBackend w1 True = Some (OK, w2)" and
    i: "w_indexes w2 = index_stripe_of fm ?opts ?bl" and
    f: "appended (history (w_dst w2)) = file_of fm ?opts ?bl"
    by (auto simp: enc_offs_closed)
  have i': "w_indexes w2 =
        concat (map (\<lambda>i. PutFixed64 (of_nat (length (filters_of fm ?opts (take i ?bl))))
                         @ PutFixed64 (of_nat (length (data_of fm (take i ?bl)))))
                  [0..<length ?bl + 1])"
    using i by (simp only: index_stripe_of_def)
  have l: "length (w_indexes w2) = 16 * (length ?bl + 1)"
    by (simp only: i length_index_stripe_of)
  have f': "appended (history (w_dst w2)) =
        data_of fm ?bl @ filters_of fm ?opts ?bl @ w_indexes w2
        @ footer_of (length (data_of fm ?bl)) (length (filters_of fm ?opts ?bl))
            (length (w_indexes w2))"
    by (simp only: f file_of_def i enc_offs_closed)
  have sf: "length (filters_of fm ?opts ?bl) < 2 ^ 64 \<longrightarrow>
         sorted (map (\<lambda>i. of_nat (length (filters_of fm ?opts (take i ?bl))) :: u64)
                   [0..<length ?bl + 1])"
    unfolding filters_of_def by (rule impI) (rule sorted_prefix_sizes)
  have sd: "length (data_of fm ?bl) < 2 ^ 64 \<longrightarrow>
         sorted (map (\<lambda>i. of_nat (length (data_of fm (take i ?bl))) :: u64)
                   [0..<length ?bl + 1])"
    unfolding data_of_def by (rule impI) (rule sorted_prefix_sizes)
  from c m s i' l f' sf sd show ?thesis by blast
qed

lemma plain_block_example2:
  "block_finish plain_formats [([4], [5])] = [1, 1, 4, 5]"
  "block_parse plain_formats [1, 1, 4, 5] = [([4], [5])]"
  "bloom_finish plain_formats bits n [[4]] = [1]"
  by (simp_all add: plain_formats_def varint_small)

lemma two_block_run:
  "\<exists>steps w1. compactions plain_formats two_block_writer [0, 1, 0] = Some (steps, w1)
     \<and> emitted steps = [[([1], [2, 3])], [([4], [5])]]"
  by (simp add: two_block_writer_def new_BufferedBlockWriter_def alloc_bufs_2 default_options_def
      DoCompaction_def Compact_def plain_block_example plain_block_example2 Let_def dst_call_eq
      good_file_def emitted_def)

lemma upt3: "[0..<3] = [0, 1, 2 :: nat]"
  by (simp add: upt_rec)

theorem index_stripe_start_offsets_witness:
  "\<exists>steps w1 w2.
      compactions plain_formats two_block_writer [0, 1, 0] = Some (steps, w1)
    \<and> emitted steps = [[([1], [2, 3])], [([4], [5])]]
    \<and> SyncBackend w1 True = Some (OK, w2)
    \<and> w_indexes w2 = PutFixed64 0 @ PutFixed64 0 @ PutFixed64 1 @ PutFixed64 5
                      @ PutFixed64 2 @ PutFixed64 9
    \<and> length (w_indexes w2) = 48
    \<and> appended (history (w_dst w2)) =
        [1, 2, 1, 2, 3] @ [1, 1, 4, 5] @ [1, 1] @ w_indexes w2 @ [9, 2, 11, 48] @ replicate 36 0"
proof -
  have h: "behaviour (w_dst two_block_writer) = (\<lambda>h c. OK)"
    "w_indexes two_block_writer = []" "w_bloomfilter two_block_writer = []"
    "w_offset two_block_writer = 0" "appended (history (w_dst two_block_writer)) = []"
    "w_num_bg_compactions two_block_writer = 0"
    "unat (w_num_compac_completed two_block_writer) + length [0, 1, 0 :: nat] < 2 ^ 32"
    by (simp_all add: two_block_writer_def new_BufferedBlockWriter_def alloc_bufs_2 good_file_def)
  have o: "w_options two_block_writer = default_options"
    by (simp add: two_block_writer_def new_BufferedBlockWriter_def alloc_bufs_2)
  from index_stripe_start_offsets [OF h, of plain_formats] obtain steps w1 w2 where
    c: "compactions plain_formats two_block_writer [0, 1, 0] = Some (steps, w1)" and
    s: "SyncBackend w1 True = Some (OK, w2)" and
    i: "w_indexes w2 =
        concat (map (\<lambda>i. PutFixed64 (of_nat (length (filters_of plain_formats
                             (w_options two_block_writer) (take i (emitted steps)))))
                         @ PutFixed64 (of_nat (length (data_of plain_formats
                             (take i (emitted steps))))))
                  [0..<length (emitted steps) + 1])" and
    l: "length (w_indexes w2) = 16 * (length (emitted steps) + 1)" and
    f: "appended (history (w_dst w2)) =
        data_of plain_formats (emitted steps)
        @ filters_of plain_formats (w_options two_block_writer) (emitted steps)
        @ w_indexes w2
        @ footer_of (length (data_of plain_formats (emitted steps)))
            (length (filters_of plain_formats (w_options two_block_writer) (emitted steps)))
            (length (w_indexes w2))"
    by blast
  from two_block_run c have e: "emitted steps = [[([1], [2, 3])], [([4], [5])]]"
    by auto
  have fl: "filter_of plain_formats default_options [([1], [2, 3])] = [1]"
    "filter_of plain_formats default_options [([4], [5])] = [1]"
    by (simp_all add: filter_of_def default_options_def plain_block_example plain_block_example2)
  have i': "w_indexes w2 = PutFixed64 0 @ PutFixed64 0 @ PutFixed64 1 @ PutFixed64 5
                      @ PutFixed64 2 @ PutFixed64 9"
    unfolding i e o
    by (simp add: upt3 filters_of_def data_of_def fl plain_block_example plain_block_example2)
  have l': "length (w_indexes w2) = 48"
    using l e by simp
  have ft: "footer_of 9 2 48 = [9, 2, 11, 48] @ replicate 36 0"
    by (simp add: footer_of_def EncodeTo_def PutVarint64_def varint_small kMaxEncodedLength_def
        resize_def)
  have d: "data_of plain_formats [[([1], [2, 3])], [([4], [5])]] = [1, 2, 1, 2, 3] @ [1, 1, 4, 5]"
    "filters_of plain_formats default_options [[([1], [2, 3])], [([4], [5])]] = [1, 1]"
    by (simp_all add: filters_of_def data_of_def fl plain_block_example plain_block_example2)
  have ld: "length ([1, 2, 1, 2, 3] @ [1, 1, 4, 5 :: byte]) = 9" "length [1, 1 :: byte] = 2"
    by simp_all
  have f': "appended (history (w_dst w2)) =
        [1, 2, 1, 2, 3] @ [1, 1, 4, 5] @ [1, 1] @ w_indexes w2 @ [9, 2, 11, 48] @ replicate 36 0"
    unfolding f e o l' d ld ft by simp
  from c e s i' l' f' show ?thesis by blast
qed

section \<open>Properties of the reader\<close>






lemma MaybeLoadCache_latched:
  "latched r \<Longrightarrow> MaybeLoadCache fm r = Some (Returns (r_cache_status r), r)"
  by (auto simp: latched_def MaybeLoadCache_def)






section \<open>Reading back the file of the writer\<close>

lemma rf_read_stored:
  assumes "r_behaviour src = (\<lambda>h offset n. (OK, take n (drop offset content)))"
  shows "rf_read src kind offset n
           = (OK, take n (drop offset content),
              src\<lparr>r_history := r_history src @ [(kind, offset, n)]\<rparr>)"
  using assms by (simp add: rf_read_def)

lemma unat_of_nat64: "n < 2 ^ 64 \<Longrightarrow> unat (of_nat n :: u64) = n"
  by (simp add: unat_of_nat)

lemma MaybeLoadCache_file:
  assumes lt: "length (file_of fm opts bl) < 2 ^ 64"
    and mx: "length (filters_of fm opts bl) + length (enc_entries (offs fm opts 0 0 bl))
               \<le> string_max_size fm"
    and src: "r_behaviour src = (\<lambda>h offset n. (OK, take n (drop offset (file_of fm opts bl))))"
  shows "\<exists>r1. MaybeLoadCache fm (new_BufferedBlockReader ropts src (length (file_of fm opts bl)))
                = Some (Returns OK, r1)
           \<and> r_cache_status r1 = OK
           \<and> r_cache_contents r1
                = filters_of fm opts bl @ enc_entries (offs fm opts 0 0 bl)
           \<and> r_indexes r1 = enc_entries (offs fm opts 0 0 bl)
           \<and> r_bloomfilter r1 = filters_of fm opts bl
           \<and> r_behaviour (r_src r1) = r_behaviour src
           \<and> r_history (r_src r1) = r_history src
                @ [(FooterRead, length (file_of fm opts bl) - 40, 40),
                   (IndexRead, length (data_of fm bl),
                    length (filters_of fm opts bl) + length (enc_entries (offs fm opts 0 0 bl)))]"
proof -
  let ?D = "data_of fm bl" and ?F = "filters_of fm opts bl"
  let ?I = "enc_entries (offs fm opts 0 0 bl)"
  let ?foot = "footer_of (length ?D) (length ?F) (length ?I)"
  let ?file = "file_of fm opts bl"
  let ?r = "new_BufferedBlockReader ropts src (length ?file)"
  have fl: "?file = ?D @ ?F @ ?I @ ?foot" by (simp add: file_of_def)
  note ff = footer_of_facts [of "length ?D" "length ?F" "length ?I"]
  have len: "length ?file = length ?D + length ?F + length ?I + 40"
    by (simp add: fl ff(1))
  have b: "length ?D < 2 ^ 64" "length ?F < 2 ^ 64" "length ?I < 2 ^ 64"
    "length ?F + length ?I < 2 ^ 64"
    using lt len by simp_all
  have i16: "16 \<le> length ?I" by (simp add: length_enc_entries length_offs)
  let ?src1 = "src\<lparr>r_history := r_history src @ [(FooterRead, length ?file - 40, 40)]\<rparr>"
  have rd1: "rf_read src FooterRead (length ?file - 40) 40
            = (OK, take 40 (drop (length ?file - 40) ?file), ?src1)"
    by (rule rf_read_stored [OF src])
  have foot: "take 40 (drop (length ?file - 40) ?file) = ?foot"
    by (simp add: fl ff(1))
  let ?r1 = "?r\<lparr>r_src := ?src1, r_cache_status := OK\<rparr>"
  have m: "MaybeLoadCache fm ?r = LoadIndexesAndFilters fm ?r1 ?foot"
    using rd1 foot
    by (simp add: MaybeLoadCache_def new_BufferedBlockReader_def kMaxEncodedLength_def len ff(1))
  from ff(2) obtain pad where pad: "?foot =
     (EncodeTo \<lparr>h_offset = of_nat (length ?D), h_size = of_nat (length ?F)\<rparr>
      @ EncodeTo \<lparr>h_offset = of_nat (length ?D) + of_nat (length ?F),
                  h_size = of_nat (length ?I)\<rparr>) @ pad"
    by blast
  have d1: "DecodeFrom ?foot = Inr (\<lparr>h_offset = of_nat (length ?D), h_size = of_nat (length ?F)\<rparr>,
      EncodeTo \<lparr>h_offset = of_nat (length ?D) + of_nat (length ?F),
                h_size = of_nat (length ?I)\<rparr> @ pad)"
    by (subst pad) (simp add: DecodeFrom_EncodeTo)
  have d2: "DecodeFrom (EncodeTo \<lparr>h_offset = of_nat (length ?D) + of_nat (length ?F),
                h_size = of_nat (length ?I)\<rparr> @ pad)
      = Inr (\<lparr>h_offset = of_nat (length ?D) + of_nat (length ?F),
               h_size = of_nat (length ?I)\<rparr>, pad)"
    by (simp add: DecodeFrom_EncodeTo)
  have tot: "unat (of_nat (length ?F) + of_nat (length ?I) :: u64) = length ?F + length ?I"
    using b(4) unat_of_nat64 [of "length ?F + length ?I"] by simp
  have st: "unat (of_nat (length ?D) :: u64) = length ?D"
    "unat (of_nat (length ?F) :: u64) = length ?F" "unat (of_nat (length ?I) :: u64) = length ?I"
    using b by (simp_all add: unat_of_nat64)
  have b1': "r_behaviour (r_src ?r1) = (\<lambda>h offset n. (OK, take n (drop offset ?file)))"
    using src by simp
  let ?src2 = "?src1\<lparr>r_history := r_history ?src1
                 @ [(IndexRead, length ?D, length ?F + length ?I)]\<rparr>"
  have rd2: "rf_read (r_src ?r1) IndexRead (length ?D) (length ?F + length ?I)
            = (OK, take (length ?F + length ?I) (drop (length ?D) ?file), ?src2)"
    using rf_read_stored [OF b1', of IndexRead "length ?D" "length ?F + length ?I"] by simp
  have cont: "take (length ?F + length ?I) (drop (length ?D) ?file) = ?F @ ?I"
    by (simp add: fl)
  let ?r2 = "?r1\<lparr>r_src := ?src2, r_cache_contents := ?F @ ?I, r_cache_status := OK,
                   r_indexes := ?I, r_bloomfilter := ?F, r_cache_status := OK\<rparr>"
  have nx: "\<not> string_max_size fm < length ?F + length ?I" using mx by simp
  have "LoadIndexesAndFilters fm ?r1 ?foot = Some (Returns OK, ?r2)"
    unfolding LoadIndexesAndFilters_def d1
    using rd2 i16 nx
    by (simp add: d2 tot st cont Let_def)
  with m show ?thesis by simp
qed

lemma enc_entries_Cons:
  "enc_entries ((f, d) # ps) = PutFixed64 (of_nat f) @ PutFixed64 (of_nat d) @ enc_entries ps"
  by (simp add: enc_entries_def)

lemma offs_hd: "\<exists>ps. offs fm opts f d bl = (f, d) # ps"
  by (cases bl) simp_all

lemma drop8_PutFixed64: "drop 8 (PutFixed64 v @ rest) = rest"
  by (simp add: length_PutFixed64)

lemma enc_entries_offs_decode:
  "DecodeFixed64 (enc_entries (offs fm opts f d bl)) = of_nat f"
  "DecodeFixed64 (drop 8 (enc_entries (offs fm opts f d bl))) = of_nat d"
proof -
  from offs_hd [of fm opts f d bl] obtain ps where e: "offs fm opts f d bl = (f, d) # ps"
    by blast
  show "DecodeFixed64 (enc_entries (offs fm opts f d bl)) = of_nat f"
    by (simp only: e enc_entries_Cons Decode_Put)
  show "DecodeFixed64 (drop 8 (enc_entries (offs fm opts f d bl))) = of_nat d"
    by (simp only: e enc_entries_Cons drop8_PutFixed64 Decode_Put)
qed

lemma GetFrom_stored:
  assumes src: "r_behaviour src = (\<lambda>h offset n. (OK, take n (drop offset content)))"
    and par: "\<forall>es. block_parse fm (block_finish fm es) = es"
    and blk: "drop d content = block_finish fm b @ rest"
    and mx: "length (block_finish fm b) \<le> string_max_size fm"
  shows "GetFrom fm src k d (length (block_finish fm b))
           = (Returns (block_seek b k \<noteq> None, OK, block_seek b k),
              src\<lparr>r_history := r_history src @ [(DataRead, d, length (block_finish fm b))]\<rparr>)"
proof -
  have rd: "rf_read src DataRead d (length (block_finish fm b))
           = (OK, take (length (block_finish fm b)) (drop d content),
              src\<lparr>r_history := r_history src @ [(DataRead, d, length (block_finish fm b))]\<rparr>)"
    by (rule rf_read_stored [OF src])
  have "take (length (block_finish fm b)) (drop d content) = block_finish fm b"
    by (simp add: blk)
  with rd par mx show ?thesis
    by (auto simp: GetFrom_def split: option.splits)
qed

lemma Get_loop_blocks:
  assumes par: "\<forall>es. block_parse fm (block_finish fm es) = es"
  shows "r_behaviour src = (\<lambda>h offset n. (OK, take n (drop offset content))) \<Longrightarrow>
         drop (off - 16) indexes = enc_entries (offs fm opts f d bl) \<Longrightarrow>
         16 \<le> off \<Longrightarrow>
         drop f bloomfilter = filters_of fm opts bl \<Longrightarrow>
         (\<exists>rest. drop d content = data_of fm bl @ rest) \<Longrightarrow>
         f + length (filters_of fm opts bl) < 2 ^ 64 \<Longrightarrow>
         d + length (data_of fm bl) < 2 ^ 64 \<Longrightarrow>
         length (data_of fm bl) \<le> string_max_size fm \<Longrightarrow>
         \<exists>src1. Get_loop fm indexes bloomfilter k src (of_nat f) (of_nat d) off OK
                  = (Returns (OK, first_found fm opts bl k), src1)
              \<and> r_behaviour src1 = r_behaviour src"
proof (induction bl arbitrary: f d off src)
  case Nil
  from Nil.prems(2) have "length (drop (off - 16) indexes) = 16"
    by (simp add: length_enc_entries)
  with Nil.prems(3) have "\<not> off + 15 < length indexes" by simp
  then show ?case by (subst Get_loop.simps) simp
next
  case (Cons b bl)
  let ?f' = "f + length (filter_of fm opts b)"
  let ?d' = "d + length (block_finish fm b)"
  from Cons.prems(2) have "length (drop (off - 16) indexes) = 16 * (length bl + 2)"
    by (simp add: length_enc_entries length_offs)
  with Cons.prems(3) have more: "off + 15 < length indexes" by simp
  have "drop off indexes = drop 16 (drop (off - 16) indexes)"
    using Cons.prems(3) by simp
  also have "\<dots> = enc_entries (offs fm opts ?f' ?d' bl)"
    by (simp add: Cons.prems(2) enc_entries_Cons length_PutFixed64)
  finally have nxt: "drop off indexes = enc_entries (offs fm opts ?f' ?d' bl)" .
  have "drop (off + 8) indexes = drop 8 (drop off indexes)"
    by (simp add: add.commute)
  with nxt have nb: "DecodeFixed64 (drop off indexes) = of_nat ?f'"
    and no: "DecodeFixed64 (drop (off + 8) indexes) = of_nat ?d'"
    by (simp_all add: enc_entries_offs_decode)
  have bf: "f < 2 ^ 64" "length (filter_of fm opts b) < 2 ^ 64"
    "d < 2 ^ 64" "length (block_finish fm b) < 2 ^ 64"
    using Cons.prems(6,7) by (simp_all add: filters_of_def data_of_def)
  have sub: "unat (of_nat (length (filter_of fm opts b)) :: u64) = length (filter_of fm opts b)"
    "unat (of_nat (length (block_finish fm b)) :: u64) = length (block_finish fm b)"
    "unat (of_nat f :: u64) = f" "unat (of_nat d :: u64) = d"
    using bf by (simp_all add: unat_of_nat64)
  have flt: "take (length (filter_of fm opts b)) (drop f bloomfilter) = filter_of fm opts b"
    and fl': "drop ?f' bloomfilter = filters_of fm opts bl"
  proof -
    have e: "drop f bloomfilter = filter_of fm opts b @ filters_of fm opts bl"
      using Cons.prems(4) by (simp add: filters_of_def)
    then show "take (length (filter_of fm opts b)) (drop f bloomfilter) = filter_of fm opts b"
      by simp
    have "drop ?f' bloomfilter = drop (length (filter_of fm opts b)) (drop f bloomfilter)"
      by (simp add: add.commute)
    then show "drop ?f' bloomfilter = filters_of fm opts bl" by (simp add: e)
  qed
  from Cons.prems(5) obtain rest where
    dr: "drop d content = block_finish fm b @ data_of fm bl @ rest"
    by (auto simp: data_of_def)
  have dat': "\<exists>rest. drop ?d' content = data_of fm bl @ rest"
  proof -
    have "drop ?d' content = drop (length (block_finish fm b)) (drop d content)"
      by (simp add: add.commute)
    then show ?thesis by (simp add: dr)
  qed
  have bnd': "?f' + length (filters_of fm opts bl) < 2 ^ 64"
    "?d' + length (data_of fm bl) < 2 ^ 64"
    "length (data_of fm bl) \<le> string_max_size fm"
    using Cons.prems(6,7,8) by (simp_all add: filters_of_def data_of_def)
  have mxb: "length (block_finish fm b) \<le> string_max_size fm"
    using Cons.prems(8) by (simp add: data_of_def)
  have off': "drop (off + 16 - 16) indexes = enc_entries (offs fm opts ?f' ?d' bl)"
    "16 \<le> off + 16"
    using nxt by simp_all
  show ?case
  proof (cases "bloom_may_match fm k (filter_of fm opts b)")
    case False
    from Cons.IH [OF Cons.prems(1) off' fl' dat' bnd'] obtain src1 where
      "Get_loop fm indexes bloomfilter k src (of_nat ?f') (of_nat ?d') (off + 16) OK
         = (Returns (OK, first_found fm opts bl k), src1)"
      "r_behaviour src1 = r_behaviour src"
      by blast
    with False more show ?thesis
      by (subst Get_loop.simps) (simp add: nb no sub flt Let_def)
  next
    case True
    let ?srcg = "src\<lparr>r_history := r_history src @ [(DataRead, d, length (block_finish fm b))]\<rparr>"
    from GetFrom_stored [OF Cons.prems(1) par dr mxb, of k] have
      g: "GetFrom fm src k d (length (block_finish fm b))
           = (Returns (block_seek b k \<noteq> None, OK, block_seek b k), ?srcg)" .
    show ?thesis
    proof (cases "block_seek b k")
      case (Some v)
      with True more g show ?thesis
        by (subst Get_loop.simps) (simp add: nb no sub flt Let_def)
    next
      case None
      have "r_behaviour ?srcg = (\<lambda>h offset n. (OK, take n (drop offset content)))"
        using Cons.prems(1) by simp
      from Cons.IH [OF this off' fl' dat' bnd'] obtain src1 where
        "Get_loop fm indexes bloomfilter k ?srcg (of_nat ?f') (of_nat ?d') (off + 16) OK
           = (Returns (OK, first_found fm opts bl k), src1)"
        "r_behaviour src1 = r_behaviour ?srcg"
        by blast
      with None True more g show ?thesis
        by (subst Get_loop.simps) (simp add: nb no sub flt Let_def)
    qed
  qed
qed

lemma block_seek_append:
  "block_seek (a @ b) k = (case block_seek a k of Some v \<Rightarrow> Some v | None \<Rightarrow> block_seek b k)"
  by (induction a) auto

lemma block_seek_Some_mem: "block_seek b k = Some v \<Longrightarrow> (k, v) \<in> set b"
  by (induction b) (auto split: if_splits)

lemma block_seek_mem_Some: "k \<in> fst ` set b \<Longrightarrow> \<exists>v. block_seek b k = Some v"
  by (induction b) force+

lemma block_seek_None_iff: "block_seek b k = None \<longleftrightarrow> k \<notin> fst ` set b"
proof
  assume "block_seek b k = None"
  then show "k \<notin> fst ` set b" using block_seek_mem_Some [of k b] by auto
next
  assume "k \<notin> fst ` set b"
  then show "block_seek b k = None"
    using block_seek_Some_mem [of b k] by (cases "block_seek b k") (auto simp: rev_image_eqI)
qed

lemma block_seek_distinct:
  "distinct (map fst es) \<Longrightarrow> (k, v) \<in> set es \<Longrightarrow> block_seek es k = Some v"
  by (induction es) (auto simp: rev_image_eqI)

lemma first_found_seek:
  assumes "formats_ok fm opts"
  shows "first_found fm opts bl k = block_seek (concat bl) k"
proof (induction bl)
  case Nil
  show ?case by simp
next
  case (Cons b bl)
  have "block_seek b k = None" if "\<not> bloom_may_match fm k (filter_of fm opts b)"
  proof -
    from assms that have "k \<notin> fst ` set b"
      unfolding formats_ok_def by blast
    then show ?thesis by (simp add: block_seek_None_iff)
  qed
  then show ?case
    by (auto simp: Cons.IH block_seek_append split: option.splits)
qed

lemma MaybeLoadCache_loaded:
  assumes lt: "length (file_of fm opts bl) < 2 ^ 64"
    and mx: "length (file_of fm opts bl) \<le> string_max_size fm"
  shows "\<exists>r1. MaybeLoadCache fm (new_BufferedBlockReader ropts (stored_file (file_of fm opts bl))
                                  (length (file_of fm opts bl)))
                = Some (Returns OK, r1)
           \<and> loaded fm opts bl r1
           \<and> r_history (r_src r1) =
                [(FooterRead, length (file_of fm opts bl) - 40, 40),
                 (IndexRead, length (data_of fm bl),
                  length (filters_of fm opts bl) + length (enc_entries (offs fm opts 0 0 bl)))]"
proof -
  let ?D = "data_of fm bl" and ?F = "filters_of fm opts bl"
  let ?I = "enc_entries (offs fm opts 0 0 bl)"
  let ?file = "file_of fm opts bl"
  let ?src = "stored_file ?file"
  have len: "length ?file = length ?D + length ?F + length ?I + 40"
    by (simp add: file_of_def footer_of_facts(1))
  have src: "r_behaviour ?src = (\<lambda>h offset n. (OK, take n (drop offset ?file)))"
    by (simp add: stored_file_def)
  have mx1: "length ?F + length ?I \<le> string_max_size fm" using mx len by simp
  have i16: "?I \<noteq> []"
    using length_enc_entries [of "offs fm opts 0 0 bl"] by (auto simp: length_offs)
  from MaybeLoadCache_file [OF lt mx1 src, of ropts] obtain r1 where
    m: "MaybeLoadCache fm (new_BufferedBlockReader ropts ?src (length ?file))
          = Some (Returns OK, r1)" and
    f: "r_cache_status r1 = OK" "r_cache_contents r1 = ?F @ ?I" "r_indexes r1 = ?I"
       "r_bloomfilter r1 = ?F" "r_behaviour (r_src r1) = r_behaviour ?src" and
    h: "r_history (r_src r1) = r_history ?src
          @ [(FooterRead, length ?file - 40, 40), (IndexRead, length ?D, length ?F + length ?I)]"
    by blast
  have "loaded fm opts bl r1"
    using f i16 src by (simp add: loaded_def)
  with m h show ?thesis by (simp add: stored_file_def)
qed

lemma Get_loaded:
  assumes ld: "loaded fm opts bl r"
    and par: "\<forall>es. block_parse fm (block_finish fm es) = es"
    and lt: "length (file_of fm opts bl) < 2 ^ 64"
    and mx: "length (file_of fm opts bl) \<le> string_max_size fm"
  shows "\<exists>src1. Get fm r k = Some (Returns (OK, first_found fm opts bl k), r\<lparr>r_src := src1\<rparr>)
           \<and> loaded fm opts bl (r\<lparr>r_src := src1\<rparr>)"
proof -
  let ?D = "data_of fm bl" and ?F = "filters_of fm opts bl"
  let ?I = "enc_entries (offs fm opts 0 0 bl)"
  let ?file = "file_of fm opts bl"
  have fl: "?file = ?D @ ?F @ ?I @ footer_of (length ?D) (length ?F) (length ?I)"
    by (simp add: file_of_def)
  have len: "length ?file = length ?D + length ?F + length ?I + 40"
    by (simp add: fl footer_of_facts(1))
  have la: "latched r" using ld by (simp add: loaded_def latched_def)
  have m: "MaybeLoadCache fm r = Some (Returns OK, r)"
    using MaybeLoadCache_latched [OF la, of fm] ld by (simp add: loaded_def)
  have b1: "r_behaviour (r_src r) = (\<lambda>h offset n. (OK, take n (drop offset ?file)))"
    using ld by (simp add: loaded_def)
  have h2: "drop (16 - 16) ?I = enc_entries (offs fm opts 0 0 bl)" by simp
  have h4: "drop 0 ?F = filters_of fm opts bl" by simp
  have h5: "\<exists>rest. drop 0 ?file = data_of fm bl @ rest" by (simp add: fl)
  have h6: "0 + length ?F < 2 ^ 64" "0 + length ?D < 2 ^ 64" "length ?D \<le> string_max_size fm"
    using lt mx len by simp_all
  from Get_loop_blocks [OF par b1 h2 _ h4 h5 h6, of k] obtain src1 where
    l: "Get_loop fm ?I ?F k (r_src r) (of_nat 0) (of_nat 0) 16 OK
          = (Returns (OK, first_found fm opts bl k), src1)" and
    b: "r_behaviour src1 = r_behaviour (r_src r)"
    by auto
  have i16: "\<not> length ?I < 16" by (simp add: length_enc_entries length_offs)
  have i: "r_indexes r = ?I" "r_bloomfilter r = ?F" using ld by (simp_all add: loaded_def)
  have "Get fm r k = Some (Returns (OK, first_found fm opts bl k), r\<lparr>r_src := src1\<rparr>)"
    using m l i16
    by (simp add: Get_def i enc_entries_offs_decode)
  moreover have "loaded fm opts bl (r\<lparr>r_src := src1\<rparr>)"
    using ld b by (simp add: loaded_def)
  ultimately show ?thesis by blast
qed


lemma Get_file:
  assumes ok: "formats_ok fm opts"
    and lt: "length (file_of fm opts bl) < 2 ^ 64"
    and mx: "length (file_of fm opts bl) \<le> string_max_size fm"
  shows "\<exists>r1. Get fm (new_BufferedBlockReader ropts (stored_file (file_of fm opts bl))
                       (length (file_of fm opts bl))) k
           = Some (Returns (OK, block_seek (concat bl) k), r1)"
proof -
  let ?r = "new_BufferedBlockReader ropts (stored_file (file_of fm opts bl))
              (length (file_of fm opts bl))"
  have par: "\<forall>es. block_parse fm (block_finish fm es) = es"
    using ok by (simp add: formats_ok_def)
  from MaybeLoadCache_loaded [OF lt mx, of ropts] obtain r1 where
    m: "MaybeLoadCache fm ?r = Some (Returns OK, r1)" and l: "loaded fm opts bl r1"
    by blast
  from Get_loaded [OF l par lt mx, of k] obtain src1 where
    g: "Get fm r1 k = Some (Returns (OK, first_found fm opts bl k), r1\<lparr>r_src := src1\<rparr>)"
    by blast
  have la: "latched r1" using l by (simp add: loaded_def latched_def)
  have st: "r_cache_status r1 = OK" using l by (simp add: loaded_def)
  have "Get fm ?r k = Get fm r1 k"
    using m MaybeLoadCache_latched [OF la, of fm] st by (simp add: Get_def)
  with g show ?thesis by (simp add: first_found_seek [OF ok])
qed

lemma get_uvar_varint: "get_uvar (varint n @ rest) = Some (n, rest)"
proof (induction n rule: varint.induct)
  case (1 n)
  show ?case
  proof (cases "n < 128")
    case True
    then have "unat (of_nat n :: byte) = n" by (simp add: unat_of_nat)
    with True show ?thesis by (subst varint.simps) simp
  next
    case False
    have "n mod 128 + 128 < 2 ^ LENGTH(8)"
    proof -
      have "n mod 128 < 128" by simp
      then show ?thesis by simp
    qed
    then have b: "unat (of_nat (n mod 128 + 128) :: byte) = n mod 128 + 128"
      by (simp only: unat_of_nat mod_less)
    from 1 [OF False] have ih: "get_uvar (varint (n div 128) @ rest) = Some (n div 128, rest)" .
    from False b ih show ?thesis
      by (subst varint.simps) simp
  qed
qed

lemma length_put_records: "length es \<le> length (put_records es)"
proof (induction es)
  case Nil
  show ?case by simp
next
  case (Cons e es)
  obtain k v where e: "e = (k, v)" by (cases e)
  have "varint (length k) \<noteq> []"
    by (subst varint.simps) simp
  then have "1 \<le> length (varint (length k))"
    by (cases "varint (length k)") simp_all
  with Cons.IH show ?case by (simp add: e)
qed

lemma get_put_records:
  "length es \<le> n \<Longrightarrow> get_records n (put_records es) = es"
proof (induction es arbitrary: n)
  case Nil
  show ?case by (cases n) simp_all
next
  case (Cons e es)
  obtain k v where e: "e = (k, v)" by (cases e)
  from Cons.prems obtain m where n: "n = Suc m" and m: "length es \<le> m"
    by (cases n) simp_all
  have "get_uvar (varint (length k) @ varint (length v) @ k @ v @ put_records es)
          = Some (length k, varint (length v) @ k @ v @ put_records es)"
    by (rule get_uvar_varint)
  moreover have "get_uvar (varint (length v) @ k @ v @ put_records es)
          = Some (length v, k @ v @ put_records es)"
    by (rule get_uvar_varint)
  ultimately show ?case
    using Cons.IH [OF m] by (simp add: e n)
qed

lemma plain_formats_ok: "formats_ok plain_formats opts"
  using get_put_records [OF length_put_records]
  by (simp add: formats_ok_def plain_formats_def)


lemma plain_max_size: "string_max_size plain_formats = 2 ^ 62"
  by (simp add: plain_formats_def)




section \<open>The write path composed with the read path\<close>

lemma first_found_absent:
  "k \<notin> fst ` set (concat bl) \<Longrightarrow> first_found fm opts bl k = None"
proof (induction bl)
  case Nil
  show ?case by simp
next
  case (Cons b bl)
  from Cons.prems have "k \<notin> fst ` set b" and r: "k \<notin> fst ` set (concat bl)"
    by auto
  then have "block_seek b k = None" by (simp add: block_seek_None_iff)
  with Cons.IH [OF r] show ?case by simp
qed

lemma Get_file_first:
  assumes par: "\<forall>es. block_parse fm (block_finish fm es) = es"
    and lt: "length (file_of fm opts bl) < 2 ^ 64"
    and mx: "length (file_of fm opts bl) \<le> string_max_size fm"
  shows "\<exists>r1. Get fm (new_BufferedBlockReader ropts (stored_file (file_of fm opts bl))
                       (length (file_of fm opts bl))) k
           = Some (Returns (OK, first_found fm opts bl k), r1)"
proof -
  let ?r = "new_BufferedBlockReader ropts (stored_file (file_of fm opts bl))
              (length (file_of fm opts bl))"
  from MaybeLoadCache_loaded [OF lt mx, of ropts] obtain r1 where
    m: "MaybeLoadCache fm ?r = Some (Returns OK, r1)" and l: "loaded fm opts bl r1"
    by blast
  from Get_loaded [OF l par lt mx, of k] obtain src1 where
    g: "Get fm r1 k = Some (Returns (OK, first_found fm opts bl k), r1\<lparr>r_src := src1\<rparr>)"
    by blast
  have la: "latched r1" using l by (simp add: loaded_def latched_def)
  have st: "r_cache_status r1 = OK" using l by (simp add: loaded_def)
  have "Get fm ?r k = Get fm r1 k"
    using m MaybeLoadCache_latched [OF la, of fm] st by (simp add: Get_def)
  with g show ?thesis by simp
qed

lemma run_ops_Finish_file:
  assumes "\<not> compaction_pool opts" and "\<not> allow_env_threads opts"
    and n: "length ops + 1 < 2 ^ 32"
  shows "\<exists>w1 w2 bl. run_ops fm (new_BufferedBlockWriter opts good_file buf_size n) ops = Some w1
           \<and> Finish fm w1 = Some (OK, w2)
           \<and> appended (history (w_dst w2)) = file_of fm opts bl
           \<and> concat bl = records ops \<and> [] \<notin> set bl"
proof -
  let ?w = "new_BufferedBlockWriter opts good_file buf_size n"
  have i0: "winv fm opts ?w [] []" by (rule new_writer_winv [OF assms(1,2)])
  have "length ([] :: BlockBuf list) + length ops < 2 ^ 32" using n by simp
  from run_ops_good [OF i0 this] obtain w1 bl1 cur1 where
    r: "run_ops fm ?w ops = Some w1" and i1: "winv fm opts w1 bl1 cur1" and
    c1: "concat bl1 @ cur1 = records ops" and l1: "length bl1 \<le> length ops"
    by auto
  have "length bl1 + 1 < 2 ^ 32" using l1 n by simp
  from Finish_good [OF i1 this] obtain w2 bl2 where
    f: "Finish fm w1 = Some (OK, w2)" and
    fl: "appended (history (w_dst w2)) = file_of fm opts bl2" and
    c2: "concat bl2 = concat bl1 @ cur1" and e: "[] \<notin> set bl2"
    by blast
  from r f fl c1 c2 e show ?thesis by auto
qed

lemma plain_buf_full:
  "buf_full plain_formats t es \<longleftrightarrow> t \<le> length (block_finish plain_formats es)"
  by (simp add: plain_formats_def)

lemma PutFixed64_nonempty: "PutFixed64 v \<noteq> []"
  using length_PutFixed64 [of v] by auto

lemma two_adds_run:
  "\<exists>w1 w2. run_ops plain_formats (new_BufferedBlockWriter default_options good_file 64 2)
              [OpAdd [1] [2, 3], OpFlush, OpAdd [4] [5]] = Some w1
     \<and> Finish plain_formats w1 = Some (OK, w2)
     \<and> appended (history (w_dst w2)) = two_block_file"
  unfolding two_block_file_def
  by (simp add: Add_def Flush_writer_def Finish_def RotateBuffer_def ScheduleCompaction_def
      DoCompaction_def Compact_def SyncBackend_def Close_writer_def DumpIndexesAndFilters_def
      dst_call_eq wf_call_def good_file_def plain_block_example plain_block_example2 Let_def
      new_BufferedBlockWriter_def alloc_bufs_2 default_options_def plain_buf_full
      EncodeTo_def PutVarint64_def varint_small kMaxEncodedLength_def resize_def
      length_PutFixed64 PutFixed64_nonempty)

lemma two_block_file_of:
  "file_of plain_formats default_options [[([1], [2, 3])], [([4], [5])]] = two_block_file"
  "length two_block_file = 99"
proof -
  have fl: "filter_of plain_formats default_options [([1], [2, 3])] = [1]"
    "filter_of plain_formats default_options [([4], [5])] = [1]"
    by (simp_all add: filter_of_def default_options_def plain_block_example plain_block_example2)
  have d: "data_of plain_formats [[([1], [2, 3])], [([4], [5])]] = [1, 2, 1, 2, 3] @ [1, 1, 4, 5]"
    "filters_of plain_formats default_options [[([1], [2, 3])], [([4], [5])]] = [1, 1]"
    by (simp_all add: filters_of_def data_of_def fl plain_block_example plain_block_example2)
  have ld: "length ([1, 2, 1, 2, 3] @ [1, 1, 4, 5 :: byte]) = 9" "length [1, 1 :: byte] = 2"
    by simp_all
  have i: "enc_entries (offs plain_formats default_options 0 0 [[([1], [2, 3])], [([4], [5])]])
      = PutFixed64 0 @ PutFixed64 0 @ PutFixed64 1 @ PutFixed64 5 @ PutFixed64 2 @ PutFixed64 9"
    by (simp add: enc_entries_def fl plain_block_example plain_block_example2)
  have li: "length (PutFixed64 0 @ PutFixed64 0 @ PutFixed64 1 @ PutFixed64 5
                    @ PutFixed64 2 @ PutFixed64 9) = 48"
    by (simp add: length_PutFixed64)
  have ft: "footer_of 9 2 48 = [9, 2, 11, 48] @ replicate 36 0"
    by (simp add: footer_of_def EncodeTo_def PutVarint64_def varint_small kMaxEncodedLength_def
        resize_def)
  show "file_of plain_formats default_options [[([1], [2, 3])], [([4], [5])]] = two_block_file"
    unfolding file_of_def d i ld li ft two_block_file_def by simp
  show "length two_block_file = 99"
    by (simp add: two_block_file_def length_PutFixed64)
qed

lemma no_record_file_of:
  "file_of plain_formats default_options [] = no_record_file"
  "length no_record_file = 56"
proof -
  have i: "enc_entries (offs plain_formats default_options 0 0 []) = PutFixed64 0 @ PutFixed64 0"
    by (simp add: enc_entries_def)
  have li: "length (PutFixed64 0 @ PutFixed64 0) = 16"
    by (simp add: length_PutFixed64)
  have ft: "footer_of 0 0 16 = [0, 0, 0, 16] @ replicate 36 0"
    by (simp add: footer_of_def EncodeTo_def PutVarint64_def varint_small kMaxEncodedLength_def
        resize_def)
  have d: "data_of plain_formats [] = []" "filters_of plain_formats default_options [] = []"
    by (simp_all add: data_of_def filters_of_def)
  show "file_of plain_formats default_options [] = no_record_file"
    unfolding file_of_def d i li no_record_file_def by (simp add: ft)
  show "length no_record_file = 56"
    by (simp add: no_record_file_def length_PutFixed64)
qed

lemma compactions_Close_file:
  assumes "behaviour (w_dst w) = (\<lambda>h c. OK)"
    and "w_indexes w = []" and "w_bloomfilter w = []" and "w_offset w = 0"
    and "appended (history (w_dst w)) = []"
    and "w_num_bg_compactions w = 0"
    and "unat (w_num_compac_completed w) + length is < 2 ^ 32"
  shows "\<exists>steps w1 w2. compactions fm w is = Some (steps, w1)
           \<and> SyncBackend w1 True = Some (OK, w2)
           \<and> appended (history (w_dst w2)) = file_of fm (w_options w) (emitted steps)"
proof -
  have s0: "streams_hold fm (w_options w) w []"
    using assms(1-6)
    by (simp add: streams_hold_def data_of_def filters_of_def enc_entries_def)
  from compactions_good [OF s0 assms(7)] obtain steps w1 where
    c: "compactions fm w is = Some (steps, w1)" and
    s1: "streams_hold fm (w_options w) w1 (emitted steps)"
    by auto
  from SyncBackend_streams [OF s1] c show ?thesis by auto
qed

text \<open>
  C1. A writer with the default options (no compaction pool, no background threads:
  each compaction runs on the calling thread) on a destination that accepts every call
  runs any sequence of \<open>Add\<close> and \<open>Flush\<close> calls, fewer than \<open>2^32 - 1\<close>, and \<open>Finish\<close>;
  all of them return OK. In the unique-key mode no key is added twice. Then, for every
  record \<open>(k, v)\<close> added, \<open>Get(k)\<close> on a new reader over the bytes of the finished file
  returns OK and stores \<open>v\<close>, provided the file is smaller than \<open>2^64\<close> bytes and fits a
  string, and the block and filter formats keep their contracts.
\<close>

theorem Get_returns_added_value:
  assumes "formats_ok fm opts"
    and "\<not> compaction_pool opts" and "\<not> allow_env_threads opts"
    and "length ops + 1 < 2 ^ 32"
    and "distinct (map fst (records ops))"
    and "(k, v) \<in> set (records ops)"
  shows "\<exists>w1 w2.
      run_ops fm (new_BufferedBlockWriter opts good_file buf_size n) ops = Some w1
    \<and> Finish fm w1 = Some (OK, w2)
    \<and> (length (appended (history (w_dst w2))) < 2 ^ 64
         \<and> length (appended (history (w_dst w2))) \<le> string_max_size fm \<longrightarrow>
       (\<exists>r1. Get fm (new_BufferedBlockReader ropts (stored_file (appended (history (w_dst w2))))
                      (length (appended (history (w_dst w2))))) k
              = Some (Returns (OK, Some v), r1)))"
proof -
  from run_ops_Finish_file [OF assms(2,3,4), of fm buf_size n] obtain w1 w2 bl where
    r: "run_ops fm (new_BufferedBlockWriter opts good_file buf_size n) ops = Some w1" and
    f: "Finish fm w1 = Some (OK, w2)" and
    fl: "appended (history (w_dst w2)) = file_of fm opts bl" and
    c: "concat bl = records ops"
    by blast
  have s: "block_seek (concat bl) k = Some v"
    unfolding c by (rule block_seek_distinct [OF assms(5,6)])
  have "\<exists>r1. Get fm (new_BufferedBlockReader ropts (stored_file (file_of fm opts bl))
                      (length (file_of fm opts bl))) k
              = Some (Returns (OK, Some v), r1)"
    if "length (file_of fm opts bl) < 2 ^ 64" and "length (file_of fm opts bl) \<le> string_max_size fm"
    using Get_file [OF assms(1) that, of ropts k] s by simp
  with r f fl show ?thesis by auto
qed

theorem Get_returns_added_value_witness:
  "\<exists>w1 w2 r1.
      run_ops plain_formats (new_BufferedBlockWriter default_options good_file 64 2)
        [OpAdd [1] [2, 3], OpFlush, OpAdd [4] [5]] = Some w1
    \<and> Finish plain_formats w1 = Some (OK, w2)
    \<and> appended (history (w_dst w2)) = two_block_file
    \<and> Get plain_formats (new_BufferedBlockReader default_options (stored_file two_block_file) 99)
          [4]
        = Some (Returns (OK, Some [5]), r1)"
proof -
  let ?ops = "[OpAdd [1] [2, 3], OpFlush, OpAdd [4] [5]]"
  have h: "\<not> compaction_pool default_options" "\<not> allow_env_threads default_options"
    "length ?ops + 1 < 2 ^ 32" "distinct (map fst (records ?ops))"
    "([4], [5]) \<in> set (records ?ops)"
    by (simp_all add: default_options_def)
  from Get_returns_added_value [OF plain_formats_ok h, of 64 2 default_options]
  obtain w1 w2 where
    r: "run_ops plain_formats (new_BufferedBlockWriter default_options good_file 64 2) ?ops
          = Some w1" and
    f: "Finish plain_formats w1 = Some (OK, w2)" and
    g: "length (appended (history (w_dst w2))) < 2 ^ 64
         \<and> length (appended (history (w_dst w2))) \<le> string_max_size plain_formats \<longrightarrow>
       (\<exists>r1. Get plain_formats
                (new_BufferedBlockReader default_options
                   (stored_file (appended (history (w_dst w2))))
                   (length (appended (history (w_dst w2))))) [4]
              = Some (Returns (OK, Some [5]), r1))"
    by blast
  from two_adds_run r f have fl: "appended (history (w_dst w2)) = two_block_file"
    by auto
  have "length two_block_file < 2 ^ 64 \<and> length two_block_file \<le> string_max_size plain_formats"
    unfolding two_block_file_of plain_max_size by simp
  with g obtain r1 where
    "Get plain_formats (new_BufferedBlockReader default_options (stored_file two_block_file) 99)
       [4] = Some (Returns (OK, Some [5]), r1)"
    unfolding fl two_block_file_of by blast
  with r f fl show ?thesis by blast
qed

text \<open>
  C3 (amended). Take the file left by any sequence of compactions followed by \<open>Close\<close>
  on a destination that accepts every call (no compaction at all, or compactions of
  empty buffers only, leave a file with no record). For every key that none of its
  blocks holds, \<open>Get\<close> on a new reader over the file returns the status OK, not a
  \<open>NotFound\<close> status, and leaves the output value as it was, whatever the filters answer.
  The file is to be smaller than \<open>2^64\<close> bytes and to fit a string.
\<close>

theorem Get_absent_key_returns_OK:
  assumes "\<forall>es. block_parse fm (block_finish fm es) = es"
    and "behaviour (w_dst w) = (\<lambda>h c. OK)"
    and "w_indexes w = []" and "w_bloomfilter w = []" and "w_offset w = 0"
    and "appended (history (w_dst w)) = []"
    and "w_num_bg_compactions w = 0"
    and "unat (w_num_compac_completed w) + length is < 2 ^ 32"
  shows "\<exists>steps w1 w2.
      compactions fm w is = Some (steps, w1)
    \<and> SyncBackend w1 True = Some (OK, w2)
    \<and> (k \<notin> fst ` set (concat (emitted steps))
         \<and> length (appended (history (w_dst w2))) < 2 ^ 64
         \<and> length (appended (history (w_dst w2))) \<le> string_max_size fm \<longrightarrow>
       (\<exists>r1. Get fm (new_BufferedBlockReader ropts (stored_file (appended (history (w_dst w2))))
                      (length (appended (history (w_dst w2))))) k
              = Some (Returns (OK, None), r1)))"
proof -
  let ?opts = "w_options w"
  have s0: "streams_hold fm ?opts w []"
    using assms(2-7)
    by (simp add: streams_hold_def data_of_def filters_of_def enc_entries_def)
  from compactions_good [OF s0 assms(8)] obtain steps w1 where
    c: "compactions fm w is = Some (steps, w1)" and
    s1: "streams_hold fm ?opts w1 (emitted steps)"
    by auto
  from SyncBackend_streams [OF s1] obtain w2 where
    s: "SyncBackend w1 True = Some (OK, w2)" and
    f: "appended (history (w_dst w2)) = file_of fm ?opts (emitted steps)"
    by auto
  have "\<exists>r1. Get fm (new_BufferedBlockReader ropts (stored_file (file_of fm ?opts (emitted steps)))
                      (length (file_of fm ?opts (emitted steps)))) k
              = Some (Returns (OK, None), r1)"
    if "k \<notin> fst ` set (concat (emitted steps))"
      and "length (file_of fm ?opts (emitted steps)) < 2 ^ 64"
      and "length (file_of fm ?opts (emitted steps)) \<le> string_max_size fm"
    using Get_file_first [OF assms(1) that(2,3), of ropts k] first_found_absent [OF that(1)]
    by simp
  with c s f show ?thesis by auto
qed

theorem Get_absent_key_returns_OK_witness:
  "\<exists>steps w1 w2 r1.
      compactions plain_formats two_block_writer [0, 1, 0] = Some (steps, w1)
    \<and> emitted steps = [[([1], [2, 3])], [([4], [5])]]
    \<and> SyncBackend w1 True = Some (OK, w2)
    \<and> appended (history (w_dst w2)) = two_block_file
    \<and> Get plain_formats (new_BufferedBlockReader default_options (stored_file two_block_file) 99)
          [9]
        = Some (Returns (OK, None), r1)"
proof -
  have par: "\<forall>es. block_parse plain_formats (block_finish plain_formats es) = es"
    using plain_formats_ok [of default_options] by (simp add: formats_ok_def)
  have h: "behaviour (w_dst two_block_writer) = (\<lambda>h c. OK)"
    "w_indexes two_block_writer = []" "w_bloomfilter two_block_writer = []"
    "w_offset two_block_writer = 0" "appended (history (w_dst two_block_writer)) = []"
    "w_num_bg_compactions two_block_writer = 0"
    "unat (w_num_compac_completed two_block_writer) + length [0, 1, 0 :: nat] < 2 ^ 32"
    by (simp_all add: two_block_writer_def new_BufferedBlockWriter_def alloc_bufs_2 good_file_def)
  have o: "w_options two_block_writer = default_options"
    by (simp add: two_block_writer_def new_BufferedBlockWriter_def alloc_bufs_2)
  from Get_absent_key_returns_OK [OF par h, of "[9]" default_options] obtain steps w1 w2 where
    c: "compactions plain_formats two_block_writer [0, 1, 0] = Some (steps, w1)" and
    s: "SyncBackend w1 True = Some (OK, w2)" and
    g: "[9] \<notin> fst ` set (concat (emitted steps))
         \<and> length (appended (history (w_dst w2))) < 2 ^ 64
         \<and> length (appended (history (w_dst w2))) \<le> string_max_size plain_formats \<longrightarrow>
       (\<exists>r1. Get plain_formats
                (new_BufferedBlockReader default_options
                   (stored_file (appended (history (w_dst w2))))
                   (length (appended (history (w_dst w2))))) [9]
              = Some (Returns (OK, None), r1))"
    by blast
  from two_block_run c have e: "emitted steps = [[([1], [2, 3])], [([4], [5])]]"
    by auto
  from compactions_Close_file [OF h, of plain_formats] c s
  have fl: "appended (history (w_dst w2)) = two_block_file"
    by (auto simp: o e two_block_file_of)
  have "[9] \<notin> fst ` set (concat (emitted steps))
         \<and> length two_block_file < 2 ^ 64
         \<and> length two_block_file \<le> string_max_size plain_formats"
    unfolding e two_block_file_of plain_max_size by simp
  with g obtain r1 where
    "Get plain_formats (new_BufferedBlockReader default_options (stored_file two_block_file) 99)
       [9] = Some (Returns (OK, None), r1)"
    unfolding fl two_block_file_of by blast
  with c e s fl show ?thesis by blast
qed

text \<open>
  A new writer that is closed with no record added (what \<open>Finish\<close> comes to then) leaves
  the 56 bytes of \<open>no_record_file\<close>, and \<open>Get\<close> of the key 1 on a reader over them returns
  the status OK with the output value left as it was.
\<close>

theorem Get_on_no_record_file_counterexample:
  "map_option (\<lambda>(st, w'). (st, appended (history (w_dst w'))))
     (SyncBackend (new_BufferedBlockWriter default_options good_file 64 2) True)
     = Some (OK, no_record_file)
   \<and> map_option fst
       (Get plain_formats (new_BufferedBlockReader default_options (stored_file no_record_file) 56)
          [1])
     = Some (Returns (OK, None))"
proof -
  have f: "map_option (\<lambda>(st, w'). (st, appended (history (w_dst w'))))
     (SyncBackend (new_BufferedBlockWriter default_options good_file 64 2) True)
     = Some (OK, no_record_file)"
    unfolding no_record_file_def
    by (simp add: SyncBackend_def Close_writer_def DumpIndexesAndFilters_def
        dst_call_eq wf_call_def good_file_def Let_def new_BufferedBlockWriter_def alloc_bufs_2
        EncodeTo_def PutVarint64_def varint_small kMaxEncodedLength_def resize_def
        length_PutFixed64 PutFixed64_nonempty)
  have par: "\<forall>es. block_parse plain_formats (block_finish plain_formats es) = es"
    using plain_formats_ok [of default_options] by (simp add: formats_ok_def)
  have lt: "length (file_of plain_formats default_options []) < 2 ^ 64"
    and mx: "length (file_of plain_formats default_options []) \<le> string_max_size plain_formats"
    unfolding no_record_file_of plain_max_size by simp_all
  from Get_file_first [OF par lt mx, of default_options "[1]"]
  have "map_option fst
       (Get plain_formats (new_BufferedBlockReader default_options (stored_file no_record_file) 56)
          [1])
     = Some (Returns (OK, None))"
    unfolding no_record_file_of by auto
  with f show ?thesis by blast
qed

end
